theory Spec2Isabelle
  imports Main
begin

section \<open>The host runtime as seen through Python.h\<close>

text \<open>
  The program under study (main.cpp) is a set of C++ scope guards around the CPython
  embedding interface.  The guards are translated from main.cpp below.  The interface
  functions themselves live in the host runtime, outside the repository; each one is
  modelled here from its entry in the CPython C-API reference, quoted next to the
  definition.

  A \<open>PyThreadState*\<close> and a \<open>PyInterpreterState*\<close> are addresses; a possibly-NULL pointer is
  an \<open>option\<close>, NULL being \<open>None\<close>.  Every interface function takes the operating-system
  thread that calls it as its first argument.  A call whose documented precondition is
  violated is \<open>Fatal\<close> (the runtime aborts the process or the behaviour is undefined); a
  call that has to wait for the global interpreter lock is \<open>Blocked\<close>; a call whose
  argument lies outside the part of Python described here is \<open>Unmodelled\<close>.  Exhaustion of
  memory inside \<open>PyThreadState_New\<close> is not modelled; failure of \<open>Py_NewInterpreter\<close>, which
  main.cpp tests for, is an explicit input.

  Every interpreter has its own module \<open>sys\<close> and with it its own stream object
  \<open>sys.stdout\<close>.  The field \<open>stdout\<close> records what has been written to these streams, in
  the order of the writes, each text with the interpreter whose stream received it.  The
  streams are buffered and share one file descriptor; when and in which order their
  contents reach the descriptor is not modelled.
\<close>

type_synonym thread_id = nat
type_synonym tstate_ptr = nat
type_synonym interp_ptr = nat

datatype failure = Fatal | Blocked | Unmodelled

datatype pyval = PyStr string | PyStrList "string list"

datatype py_expr =
    Const pyval
  | SysAttr string
  | GetattrSys string pyval
  | Format string py_expr

datatype py_stmt = SetSysAttr string py_expr | Print py_expr

datatype api_call =
    Call_InitializeEx
  | Call_InitThreads
  | Call_Finalize
  | Call_SaveThread
  | Call_RestoreThread "tstate_ptr option"
  | Call_ThreadState_Get
  | Call_ThreadState_Swap "tstate_ptr option"
  | Call_ThreadState_New interp_ptr
  | Call_ThreadState_Clear "tstate_ptr option"
  | Call_ThreadState_DeleteCurrent
  | Call_NewInterpreter
  | Call_EndInterpreter "tstate_ptr option"
  | Call_RunSimpleString "py_stmt list"

record tstate =
  interp :: interp_ptr
  cleared :: bool

record runtime =
  initialized :: bool
  gil :: "thread_id option"
  current :: "thread_id \<Rightarrow> tstate_ptr option"
  tstates :: "(tstate_ptr \<times> tstate) list"
  interps :: "interp_ptr list"
  sys_attrs :: "interp_ptr \<Rightarrow> (string \<times> pyval) list"
  stdout :: "(interp_ptr \<times> string) list"
  calls :: "(thread_id \<times> api_call) list"

definition and_then :: "failure + 'a \<Rightarrow> ('a \<Rightarrow> failure + 'b) \<Rightarrow> failure + 'b" where
  "and_then r k = (case r of Inl e \<Rightarrow> Inl e | Inr x \<Rightarrow> k x)"

definition logged :: "thread_id \<Rightarrow> api_call \<Rightarrow> runtime \<Rightarrow> runtime" where
  "logged t c s = s\<lparr>calls := calls s @ [(t, c)]\<rparr>"

text \<open>An address not in use: one past the largest address in use.\<close>

definition fresh_ptr :: "nat list \<Rightarrow> nat" where
  "fresh_ptr used = Suc (fold max used 0)"

definition tstate_at :: "runtime \<Rightarrow> tstate_ptr \<Rightarrow> tstate option" where
  "tstate_at s p = map_of (tstates s) p"

definition not_started :: runtime where
  "not_started =
     \<lparr>initialized = False, gil = None, current = (\<lambda>_. None), tstates = [], interps = [],
      sys_attrs = (\<lambda>_. []), stdout = [], calls = []\<rparr>"

text \<open>
  \<open>Py_InitializeEx\<close>: "Initialize the Python interpreter. [...] This is a no-op when
  called for a second time."  It creates the main interpreter and its first thread state,
  which becomes the current thread state of the calling thread, and (since Python 3.7)
  leaves the calling thread holding the global interpreter lock.
\<close>

definition Py_InitializeEx :: "thread_id \<Rightarrow> runtime \<Rightarrow> failure + runtime" where
  "Py_InitializeEx t s =
     (if initialized s then Inr (logged t Call_InitializeEx s)
      else
        let i = fresh_ptr (interps s); p = fresh_ptr (map fst (tstates s))
        in Inr (logged t Call_InitializeEx
             (s\<lparr>initialized := True, gil := Some t,
                current := (current s)(t := Some p),
                tstates := (p, \<lparr>interp = i, cleared = False\<rparr>) # tstates s,
                interps := i # interps s,
                sys_attrs := (sys_attrs s)(i := [])\<rparr>)))"

text \<open>
  \<open>PyEval_InitThreads\<close>: "Initialize and acquire the global interpreter lock. [...] This
  is a no-op when called for a second time."  After \<open>Py_InitializeEx\<close> the lock exists and
  the caller holds it.
\<close>

definition PyEval_InitThreads :: "thread_id \<Rightarrow> runtime \<Rightarrow> failure + runtime" where
  "PyEval_InitThreads t s =
     (if \<not> initialized s then Inl Fatal
      else if gil s = None then Inr (logged t Call_InitThreads (s\<lparr>gil := Some t\<rparr>))
      else Inr (logged t Call_InitThreads s))"

text \<open>
  \<open>Py_Finalize\<close>: "Undo all initializations made by Py_Initialize() and subsequent use of
  Python/C API functions, and destroy all sub-interpreters [...] that were created and not
  yet destroyed since the last call to Py_Initialize()."  The caller holds the lock and
  has a current thread state.
\<close>

definition Py_Finalize :: "thread_id \<Rightarrow> runtime \<Rightarrow> failure + runtime" where
  "Py_Finalize t s =
     (if \<not> initialized s \<or> gil s \<noteq> Some t \<or> current s t = None then Inl Fatal
      else Inr (logged t Call_Finalize
             (s\<lparr>initialized := False, gil := None, current := (\<lambda>_. None), tstates := [],
                interps := [], sys_attrs := (\<lambda>_. [])\<rparr>)))"

text \<open>
  \<open>PyEval_SaveThread\<close>: "Release the global interpreter lock (if it has been created) and
  reset the thread state to NULL, returning the previous thread state (which is not
  NULL).  If the lock has been created, the current thread must have acquired it."
\<close>

definition PyEval_SaveThread ::
  "thread_id \<Rightarrow> runtime \<Rightarrow> failure + (tstate_ptr option \<times> runtime)" where
  "PyEval_SaveThread t s =
     (if gil s \<noteq> Some t \<or> current s t = None then Inl Fatal
      else Inr (current s t,
             logged t Call_SaveThread (s\<lparr>gil := None, current := (current s)(t := None)\<rparr>)))"

text \<open>
  \<open>PyEval_RestoreThread\<close>: "Acquire the global interpreter lock (if it has been created)
  and set the thread state to tstate, which must not be NULL.  If the lock has been
  created, the current thread must not have acquired it, otherwise deadlock ensues."
  The call waits for as long as any thread holds the lock.
\<close>

definition PyEval_RestoreThread ::
  "thread_id \<Rightarrow> tstate_ptr option \<Rightarrow> runtime \<Rightarrow> failure + runtime" where
  "PyEval_RestoreThread t ts s =
     (case ts of
        None \<Rightarrow> Inl Fatal
      | Some p \<Rightarrow>
          if tstate_at s p = None then Inl Fatal
          else if gil s \<noteq> None then Inl Blocked
          else Inr (logged t (Call_RestoreThread ts)
                 (s\<lparr>gil := Some t, current := (current s)(t := Some p)\<rparr>)))"

text \<open>
  \<open>PyThreadState_Get\<close>: "Return the current thread state.  The global interpreter lock
  must be held.  When the current thread state is NULL, this issues a fatal error (so
  that the caller needn't check for NULL)."
\<close>

definition PyThreadState_Get ::
  "thread_id \<Rightarrow> runtime \<Rightarrow> failure + (tstate_ptr option \<times> runtime)" where
  "PyThreadState_Get t s =
     (if gil s \<noteq> Some t \<or> current s t = None then Inl Fatal
      else Inr (current s t, logged t Call_ThreadState_Get s))"

text \<open>
  \<open>PyThreadState_Swap\<close>: "Swap the current thread state with the thread state given by
  the argument tstate, which may be NULL.  The global interpreter lock must be held and
  is not released."  It returns the previous current thread state.
\<close>

definition PyThreadState_Swap ::
  "thread_id \<Rightarrow> tstate_ptr option \<Rightarrow> runtime \<Rightarrow> failure + (tstate_ptr option \<times> runtime)" where
  "PyThreadState_Swap t ts s =
     (if gil s \<noteq> Some t then Inl Fatal
      else Inr (current s t,
             logged t (Call_ThreadState_Swap ts) (s\<lparr>current := (current s)(t := ts)\<rparr>)))"

text \<open>
  \<open>PyThreadState_New\<close>: "Create a new thread state object belonging to the given
  interpreter object.  The global interpreter lock need not be held, but may be held if
  it is necessary to serialize calls to this function."  The current thread state of the
  caller is not changed.
\<close>

definition PyThreadState_New ::
  "thread_id \<Rightarrow> interp_ptr \<Rightarrow> runtime \<Rightarrow> failure + (tstate_ptr option \<times> runtime)" where
  "PyThreadState_New t i s =
     (if i \<notin> set (interps s) then Inl Fatal
      else
        let p = fresh_ptr (map fst (tstates s))
        in Inr (Some p,
             logged t (Call_ThreadState_New i)
               (s\<lparr>tstates := (p, \<lparr>interp = i, cleared = False\<rparr>) # tstates s\<rparr>)))"

text \<open>
  \<open>PyThreadState_Clear\<close>: "Reset all information in a thread state object.  The global
  interpreter lock must be held."
\<close>

definition PyThreadState_Clear ::
  "thread_id \<Rightarrow> tstate_ptr option \<Rightarrow> runtime \<Rightarrow> failure + runtime" where
  "PyThreadState_Clear t ts s =
     (case ts of
        None \<Rightarrow> Inl Fatal
      | Some p \<Rightarrow>
          if gil s \<noteq> Some t \<or> tstate_at s p = None then Inl Fatal
          else Inr (logged t (Call_ThreadState_Clear ts)
                 (s\<lparr>tstates :=
                      map (\<lambda>e. if fst e = p then (p, (snd e)\<lparr>cleared := True\<rparr>) else e)
                        (tstates s)\<rparr>)))"

text \<open>
  \<open>PyThreadState_DeleteCurrent\<close>: "Destroy the current thread state and release the
  global interpreter lock. [...] The thread state must have been reset with a previous
  call to PyThreadState_Clear()."
\<close>

definition PyThreadState_DeleteCurrent :: "thread_id \<Rightarrow> runtime \<Rightarrow> failure + runtime" where
  "PyThreadState_DeleteCurrent t s =
     (if gil s \<noteq> Some t then Inl Fatal
      else
        case current s t of
          None \<Rightarrow> Inl Fatal
        | Some p \<Rightarrow>
            (case tstate_at s p of
               None \<Rightarrow> Inl Fatal
             | Some st \<Rightarrow>
                 if \<not> cleared st then Inl Fatal
                 else Inr (logged t Call_ThreadState_DeleteCurrent
                        (s\<lparr>gil := None, current := (current s)(t := None),
                           tstates := filter (\<lambda>e. fst e \<noteq> p) (tstates s)\<rparr>))))"

text \<open>
  \<open>Py_NewInterpreter\<close>: "Create a new sub-interpreter.  This is an (almost) totally
  separate environment for the execution of Python code.  In particular, the new
  interpreter has separate, independent versions of all imported modules, including the
  fundamental modules builtins, __main__ and sys. [...] The return value points to the
  first thread state created in the new interpreter.  This thread state is made in the
  current thread state.  Note that no actual thread is created. [...] If creation of the
  new interpreter is unsuccessful, NULL is returned [...] the global interpreter lock
  must be held before calling this function and is still held when it returns".  On
  failure the runtime puts the previous thread state back.  Whether creation succeeds is
  the input \<open>ok\<close>.
\<close>

definition Py_NewInterpreter ::
  "thread_id \<Rightarrow> bool \<Rightarrow> runtime \<Rightarrow> failure + (tstate_ptr option \<times> runtime)" where
  "Py_NewInterpreter t ok s =
     (if \<not> initialized s \<or> gil s \<noteq> Some t then Inl Fatal
      else if \<not> ok then Inr (None, logged t Call_NewInterpreter s)
      else
        let i = fresh_ptr (interps s); p = fresh_ptr (map fst (tstates s))
        in Inr (Some p,
             logged t Call_NewInterpreter
               (s\<lparr>current := (current s)(t := Some p),
                  tstates := (p, \<lparr>interp = i, cleared = False\<rparr>) # tstates s,
                  interps := i # interps s,
                  sys_attrs := (sys_attrs s)(i := [])\<rparr>)))"

text \<open>
  \<open>Py_EndInterpreter\<close>: "Destroy the (sub-)interpreter represented by the given thread
  state.  The given thread state must be the current thread state. [...] When the call
  returns, the current thread state is NULL.  All thread states associated with this
  interpreter are destroyed.  (The global interpreter lock must be held before calling
  this function and is still held when it returns.)"  The runtime aborts when the given
  thread state is not the only one left in its interpreter.
\<close>

definition Py_EndInterpreter ::
  "thread_id \<Rightarrow> tstate_ptr option \<Rightarrow> runtime \<Rightarrow> failure + runtime" where
  "Py_EndInterpreter t ts s =
     (case ts of
        None \<Rightarrow> Inl Fatal
      | Some p \<Rightarrow>
          if gil s \<noteq> Some t \<or> current s t \<noteq> Some p then Inl Fatal
          else
            case tstate_at s p of
              None \<Rightarrow> Inl Fatal
            | Some st \<Rightarrow>
                if list_ex (\<lambda>e. interp (snd e) = interp st \<and> fst e \<noteq> p) (tstates s)
                then Inl Fatal
                else Inr (logged t (Call_EndInterpreter ts)
                       (s\<lparr>current := (current s)(t := None),
                          tstates := filter (\<lambda>e. interp (snd e) \<noteq> interp st) (tstates s),
                          interps := filter (\<lambda>i. i \<noteq> interp st) (interps s)\<rparr>)))"

subsection \<open>The Python that main.cpp runs\<close>

text \<open>
  The two scripts of main.cpp assign an attribute of module \<open>sys\<close>, read one with or
  without a default, format a value into a template that ends in \<open>{}\<close>, and print.  (Their
  statements \<open>from __future__ import print_function\<close> and \<open>import sys\<close> bind names of the
  script's own module.)  The interpreter compiles a script to instructions and executes
  them one after the other on a stack of values.  Module \<open>sys\<close> is the one of the
  interpreter \<open>i\<close> of the thread state that runs the script, and \<open>print\<close> writes to the
  \<open>sys.stdout\<close> of that interpreter.  An instruction that raises (an attribute that is not
  set) ends the script.
\<close>

datatype py_op =
    Op_const pyval
  | Op_sys_attr string
  | Op_getattr_sys string pyval
  | Op_format string
  | Op_set_sys_attr string
  | Op_print

fun compile_expr :: "py_expr \<Rightarrow> py_op list" where
  "compile_expr (Const v) = [Op_const v]"
| "compile_expr (SysAttr a) = [Op_sys_attr a]"
| "compile_expr (GetattrSys a d) = [Op_getattr_sys a d]"
| "compile_expr (Format prefix e) = compile_expr e @ [Op_format prefix]"

fun compile_stmt :: "py_stmt \<Rightarrow> py_op list" where
  "compile_stmt (SetSysAttr a e) = compile_expr e @ [Op_set_sys_attr a]"
| "compile_stmt (Print e) = compile_expr e @ [Op_print]"

definition compile :: "py_stmt list \<Rightarrow> py_op list" where
  "compile code = concat (map compile_stmt code)"

fun join_with :: "string \<Rightarrow> string list \<Rightarrow> string" where
  "join_with sep [] = []"
| "join_with sep [x] = x"
| "join_with sep (x # y # ys) = x @ sep @ join_with sep (y # ys)"

fun py_repr :: "pyval \<Rightarrow> string" where
  "py_repr (PyStr x) = [CHR 0x27] @ x @ [CHR 0x27]"
| "py_repr (PyStrList xs) =
     ''['' @ join_with '', '' (map (\<lambda>x. [CHR 0x27] @ x @ [CHR 0x27]) xs) @ '']''"

fun py_str :: "pyval \<Rightarrow> string" where
  "py_str (PyStr x) = x"
| "py_str v = py_repr v"

fun exec_op ::
  "py_op \<Rightarrow> interp_ptr \<Rightarrow> pyval list \<Rightarrow> runtime \<Rightarrow> (pyval list \<times> runtime) option" where
  "exec_op (Op_const v) i stk s = Some (v # stk, s)"
| "exec_op (Op_sys_attr a) i stk s =
     (case map_of (sys_attrs s i) a of None \<Rightarrow> None | Some v \<Rightarrow> Some (v # stk, s))"
| "exec_op (Op_getattr_sys a d) i stk s =
     Some ((case map_of (sys_attrs s i) a of None \<Rightarrow> d | Some v \<Rightarrow> v) # stk, s)"
| "exec_op (Op_format prefix) i (v # stk) s = Some (PyStr (prefix @ py_str v) # stk, s)"
| "exec_op (Op_set_sys_attr a) i (v # stk) s =
     Some (stk, s\<lparr>sys_attrs := (sys_attrs s)(i := (a, v) # sys_attrs s i)\<rparr>)"
| "exec_op Op_print i (v # stk) s = Some (stk, s\<lparr>stdout := stdout s @ [(i, py_str v)]\<rparr>)"
| "exec_op _ i [] s = None"

text \<open>
  \<open>PyRun_SimpleString\<close>: "Executes the Python source code from command in the __main__
  module [...].  Returns 0 on success or -1 if an exception was raised."  The caller holds
  the lock and has a live current thread state; the code runs in that thread state's
  interpreter.

  The call is not one indivisible action.  "In order to emulate concurrency of execution,
  the interpreter regularly tries to switch threads (see sys.setswitchinterval()).  The
  lock is also released around potentially blocking I/O operations like reading or writing
  a file, so that other Python threads can run in the meantime."  Between two instructions
  the interpreter may thus hand the lock over: it resets the current thread state to NULL
  and frees the lock, and then waits for the lock, like any other thread, to take it back
  and make the thread state of the script current again.  Whether it does so before the
  next instruction is not decided by the script; it is the input \<open>switch\<close> of the move.

  A script under execution is \<open>Running\<close> (the lock is held) or \<open>Waiting\<close> (the lock was
  handed over and is to be taken back), with the thread state that runs it, the
  instructions left and the stack; when the call has returned, the status is \<open>Returned\<close>.
  \<open>PyRun_SimpleString\<close> below is the entry into the call, \<open>PyRun_continue\<close> one further
  action of it: a hand-over, a taking back, one instruction, or the return.
\<close>

datatype script =
    Running tstate_ptr "py_op list" "pyval list"
  | Waiting tstate_ptr "py_op list" "pyval list"
  | Returned int

definition PyRun_SimpleString ::
  "thread_id \<Rightarrow> py_stmt list \<Rightarrow> runtime \<Rightarrow> failure + (script \<times> runtime)" where
  "PyRun_SimpleString t code s =
     (if gil s \<noteq> Some t then Inl Fatal
      else
        case current s t of
          None \<Rightarrow> Inl Fatal
        | Some p \<Rightarrow>
            (case tstate_at s p of
               None \<Rightarrow> Inl Fatal
             | Some st \<Rightarrow>
                 Inr (Running p (compile code) [], logged t (Call_RunSimpleString code) s)))"

definition PyRun_continue ::
  "thread_id \<Rightarrow> bool \<Rightarrow> script \<Rightarrow> runtime \<Rightarrow> failure + (script \<times> runtime)" where
  "PyRun_continue t switch sc s =
     (case sc of
        Running p ops stk \<Rightarrow>
          if gil s \<noteq> Some t \<or> current s t \<noteq> Some p then Inl Fatal
          else
            (case tstate_at s p of
               None \<Rightarrow> Inl Fatal
             | Some st \<Rightarrow>
                 if switch
                 then Inr (Waiting p ops stk, s\<lparr>gil := None, current := (current s)(t := None)\<rparr>)
                 else
                   (case ops of
                      [] \<Rightarrow> Inr (Returned 0, s)
                    | op # rest \<Rightarrow>
                        (case exec_op op (interp st) stk s of
                           None \<Rightarrow> Inr (Returned (- 1), s)
                         | Some (stk', s') \<Rightarrow> Inr (Running p rest stk', s'))))
      | Waiting p ops stk \<Rightarrow>
          if tstate_at s p = None then Inl Fatal
          else if gil s \<noteq> None then Inl Blocked
          else Inr (Running p ops stk, s\<lparr>gil := Some t, current := (current s)(t := Some p)\<rparr>)
      | Returned rc \<Rightarrow> Inl Fatal)"

section \<open>The scope guards of main.cpp\<close>

text \<open>
  Each class is a constructor and a destructor; the object is its one data member, the
  saved pointer.  A block \<open>{ T guard(args); body }\<close> runs the constructor, the body and the
  destructor; the destructor also runs when the body leaves by an exception.
\<close>

datatype 'a exit_path = Returns 'a | Throws

definition scoped ::
  "(runtime \<Rightarrow> failure + ('g \<times> runtime)) \<Rightarrow> ('g \<Rightarrow> runtime \<Rightarrow> failure + runtime) \<Rightarrow>
   (runtime \<Rightarrow> failure + ('a exit_path \<times> runtime)) \<Rightarrow> runtime \<Rightarrow>
   failure + ('a exit_path \<times> runtime)" where
  "scoped ctor dtor body s =
     and_then (ctor s) (\<lambda>(g, s1).
     and_then (body s1) (\<lambda>(r, s2).
     and_then (dtor g s2) (\<lambda>s3. Inr (r, s3))))"

subsection \<open>struct initialize\<close>

definition initialize_ctor :: "thread_id \<Rightarrow> runtime \<Rightarrow> failure + runtime" where
  "initialize_ctor t s = and_then (Py_InitializeEx t s) (PyEval_InitThreads t)"

definition initialize_dtor :: "thread_id \<Rightarrow> runtime \<Rightarrow> failure + runtime" where
  "initialize_dtor t s = Py_Finalize t s"

subsection \<open>class enable_threads_scope\<close>

type_synonym enable_threads_scope = "tstate_ptr option"

definition enable_threads_scope_ctor ::
  "thread_id \<Rightarrow> runtime \<Rightarrow> failure + (enable_threads_scope \<times> runtime)" where
  "enable_threads_scope_ctor t s = PyEval_SaveThread t s"

definition enable_threads_scope_dtor ::
  "thread_id \<Rightarrow> enable_threads_scope \<Rightarrow> runtime \<Rightarrow> failure + runtime" where
  "enable_threads_scope_dtor t state s = PyEval_RestoreThread t state s"

subsection \<open>class restore_tstate_scope\<close>

type_synonym restore_tstate_scope = "tstate_ptr option"

definition restore_tstate_scope_ctor ::
  "thread_id \<Rightarrow> runtime \<Rightarrow> failure + (restore_tstate_scope \<times> runtime)" where
  "restore_tstate_scope_ctor t s = PyThreadState_Get t s"

definition restore_tstate_scope_dtor ::
  "thread_id \<Rightarrow> restore_tstate_scope \<Rightarrow> runtime \<Rightarrow> failure + runtime" where
  "restore_tstate_scope_dtor t ts s =
     and_then (PyThreadState_Swap t ts s) (\<lambda>(old, s'). Inr s')"

subsection \<open>class swap_tstate_scope\<close>

type_synonym swap_tstate_scope = "tstate_ptr option"

definition swap_tstate_scope_ctor ::
  "thread_id \<Rightarrow> tstate_ptr option \<Rightarrow> runtime \<Rightarrow> failure + (swap_tstate_scope \<times> runtime)" where
  "swap_tstate_scope_ctor t ts s = PyThreadState_Swap t ts s"

definition swap_tstate_scope_dtor ::
  "thread_id \<Rightarrow> swap_tstate_scope \<Rightarrow> runtime \<Rightarrow> failure + runtime" where
  "swap_tstate_scope_dtor t ts s =
     and_then (PyThreadState_Swap t ts s) (\<lambda>(old, s'). Inr s')"

subsection \<open>class thread_state\<close>

type_synonym thread_state = "tstate_ptr option"

definition thread_state_ctor ::
  "thread_id \<Rightarrow> interp_ptr \<Rightarrow> runtime \<Rightarrow> failure + (thread_state \<times> runtime)" where
  "thread_state_ctor t i s =
     and_then (PyThreadState_New t i s) (\<lambda>(ts, s1).
     and_then (PyEval_RestoreThread t ts s1) (\<lambda>s2. Inr (ts, s2)))"

definition thread_state_dtor ::
  "thread_id \<Rightarrow> thread_state \<Rightarrow> runtime \<Rightarrow> failure + runtime" where
  "thread_state_dtor t ts s =
     and_then (PyThreadState_Clear t ts s) (PyThreadState_DeleteCurrent t)"

definition thread_state_current ::
  "thread_id \<Rightarrow> runtime \<Rightarrow> failure + (tstate_ptr option \<times> runtime)" where
  "thread_state_current t s = PyThreadState_Get t s"

subsection \<open>class sub_interpreter\<close>

text \<open>
  \<open>thread_scope\<close> has two data members, constructed in the order of their declaration
  (\<open>_state\<close>, then \<open>_swap\<close>, which is initialised from \<open>_state\<close> through its conversion to
  \<open>PyThreadState*\<close>) and destroyed in the opposite order.
\<close>

record thread_scope =
  scope_state :: thread_state
  scope_swap :: swap_tstate_scope

definition thread_scope_ctor ::
  "thread_id \<Rightarrow> interp_ptr \<Rightarrow> runtime \<Rightarrow> failure + (thread_scope \<times> runtime)" where
  "thread_scope_ctor t i s =
     and_then (thread_state_ctor t i s) (\<lambda>(st, s1).
     and_then (swap_tstate_scope_ctor t st s1) (\<lambda>(sw, s2).
     Inr (\<lparr>scope_state = st, scope_swap = sw\<rparr>, s2)))"

definition thread_scope_dtor ::
  "thread_id \<Rightarrow> thread_scope \<Rightarrow> runtime \<Rightarrow> failure + runtime" where
  "thread_scope_dtor t g s =
     and_then (swap_tstate_scope_dtor t (scope_swap g) s) (thread_state_dtor t (scope_state g))"

type_synonym sub_interpreter = "tstate_ptr option"

definition sub_interpreter_ctor ::
  "thread_id \<Rightarrow> bool \<Rightarrow> runtime \<Rightarrow> failure + (sub_interpreter \<times> runtime)" where
  "sub_interpreter_ctor t ok s =
     and_then (restore_tstate_scope_ctor t s) (\<lambda>(restore, s1).
     and_then (Py_NewInterpreter t ok s1) (\<lambda>(ts, s2).
     and_then (restore_tstate_scope_dtor t restore s2) (\<lambda>s3. Inr (ts, s3))))"

definition sub_interpreter_dtor ::
  "thread_id \<Rightarrow> sub_interpreter \<Rightarrow> runtime \<Rightarrow> failure + runtime" where
  "sub_interpreter_dtor t ts s =
     (if ts \<noteq> None then
        and_then (swap_tstate_scope_ctor t ts s) (\<lambda>(sts, s1).
        and_then (Py_EndInterpreter t ts s1) (swap_tstate_scope_dtor t sts))
      else Inr s)"

text \<open>\<open>_ts->interp\<close>: reading through NULL or through a destroyed thread state is fatal.\<close>

definition deref_interp :: "tstate_ptr option \<Rightarrow> runtime \<Rightarrow> failure + interp_ptr" where
  "deref_interp ts s =
     (case ts of
        None \<Rightarrow> Inl Fatal
      | Some p \<Rightarrow> (case tstate_at s p of None \<Rightarrow> Inl Fatal | Some st \<Rightarrow> Inr (interp st)))"

definition sub_interpreter_interp :: "sub_interpreter \<Rightarrow> runtime \<Rightarrow> failure + interp_ptr" where
  "sub_interpreter_interp ts s = deref_interp ts s"

definition sub_interpreter_current ::
  "thread_id \<Rightarrow> runtime \<Rightarrow> failure + (interp_ptr \<times> runtime)" where
  "sub_interpreter_current t s =
     and_then (thread_state_current t s) (\<lambda>(ts, s1).
     and_then (deref_interp ts s1) (\<lambda>i. Inr (i, s1)))"

subsection \<open>The thread function f and main\<close>

text \<open>
  \<open>f\<close> pastes the thread's name over the placeholder TNAME of its script, where it stands
  inside a string literal that is the template of \<open>str.format\<close>.  For a name made of
  printable ASCII characters other than the double quote, the backslash and the braces,
  the script is the one statement that prints the name, \<open>: sys.xxx=\<close> and
  \<open>getattr(sys, 'xxx', 'attribute not set')\<close>.  With any other name the text is a
  different program (a brace opens a replacement field, a quote ends the literal, a
  backslash starts an escape), which is not described here.
\<close>

definition plain_name :: "string \<Rightarrow> bool" where
  "plain_name tname \<longleftrightarrow>
     list_all (\<lambda>c. 32 \<le> (of_char c :: nat) \<and> (of_char c :: nat) \<le> 126 \<and>
                 c \<notin> set [CHR 0x22, CHR 0x5C, CHR 0x7B, CHR 0x7D]) tname"

definition f_code :: "string \<Rightarrow> py_stmt list option" where
  "f_code tname =
     (if plain_name tname
      then Some [Print (Format (tname @ '': sys.xxx='')
                   (GetattrSys ''xxx'' (PyStr ''attribute not set'')))]
      else None)"

definition main_code :: "py_stmt list" where
  "main_code =
     [SetSysAttr ''xxx'' (Const (PyStrList [''abc''])),
      Print (Format ''main: setting sys.xxx='' (SysAttr ''xxx''))]"

text \<open>
  A \<open>std::thread\<close> runs \<open>f\<close> on an operating-system thread of its own from the moment it is
  constructed, side by side with main and with the other threads.  Which thread performs
  its next action, and whether the interpreter hands the lock over before the next
  instruction of a script, is decided by the scheduler, not by the program: it is the
  input \<open>sched\<close>, the list of the threads that move, one action each time, each with the
  switch request it meets.  An action is one call of the interface or, inside
  \<open>PyRun_SimpleString\<close>, one instruction of the script, one hand-over of the lock or one
  taking back of it.  A thread that has to wait (it asks for the lock while it is held,
  it joins a thread that has not finished) cannot move: a schedule that names it then is
  not an execution, and its result is \<open>Blocked\<close>.

  Where a thread stands in its program is a \<open>point\<close>.  A thread that runs \<open>f\<close> stands
  before one of the interface calls \<open>f\<close> makes: \<open>W_new\<close> and \<open>W_restore\<close> (the constructor
  of \<open>thread_state\<close>), \<open>W_swap\<close> (the constructor of \<open>swap_tstate_scope\<close>), \<open>W_run\<close>
  (\<open>PyRun_SimpleString\<close>), \<open>W_unswap\<close> (the destructor of \<open>swap_tstate_scope\<close>), \<open>W_clear\<close>
  and \<open>W_delete\<close> (the destructor of \<open>thread_state\<close>); or it is inside
  \<open>PyRun_SimpleString\<close>, at \<open>W_script\<close>; or it is \<open>Done\<close>.  main, once \<open>s1\<close> and \<open>s2\<close> exist,
  stands before its \<open>PyRun_SimpleString\<close> (\<open>M_run\<close>) or inside it (\<open>M_script\<close>), at \<open>Spawn ws
  ks\<close> (about to construct the first of the threads \<open>ws\<close>, and when none is left, about
  to construct its \<open>enable_threads_scope\<close>; \<open>ks\<close> are the threads it joins afterwards), at
  \<open>Join ks\<close> (about to join the first of \<open>ks\<close>, and when none is left, about to destroy
  the \<open>enable_threads_scope\<close>), or has \<open>Finished\<close> the block.  A thread id that is no thread
  (yet) is \<open>Absent\<close>.

  The variables of a thread are the \<open>_ts\<close> of its \<open>thread_state\<close> (for main, the \<open>_state\<close> of
  its \<open>enable_threads_scope\<close>) and the \<open>_ts\<close> of its \<open>swap_tstate_scope\<close>; main also has \<open>s1\<close>
  and \<open>s2\<close>.  The first argument of \<open>f\<close> is written \<open>s.interp()\<close> or
  \<open>sub_interpreter::current()\<close> and is evaluated by main when it constructs the thread.
\<close>

datatype arg = Interp_of sub_interpreter | Interp_current

type_synonym thread_ctor = "thread_id \<times> arg \<times> string"

datatype point =
    Absent
  | M_run
  | M_script script
  | Spawn "thread_ctor list" "thread_id list"
  | Join "thread_id list"
  | Finished
  | W_new | W_restore | W_swap | W_run
  | W_script script
  | W_unswap | W_clear | W_delete | Done

record config =
  rt :: runtime
  pc :: "thread_id \<Rightarrow> point"
  arg_interp :: "thread_id \<Rightarrow> interp_ptr"
  arg_tname :: "thread_id \<Rightarrow> string"
  var_state :: "thread_id \<Rightarrow> tstate_ptr option"
  var_swap :: "thread_id \<Rightarrow> tstate_ptr option"
  var_s1 :: sub_interpreter
  var_s2 :: sub_interpreter

definition goes :: "thread_id \<Rightarrow> point \<Rightarrow> runtime \<Rightarrow> config \<Rightarrow> config" where
  "goes t p r c = c\<lparr>rt := r, pc := (pc c)(t := p)\<rparr>"

text \<open>The next action of a thread that runs \<open>f\<close>.\<close>

definition f :: "thread_id \<Rightarrow> bool \<Rightarrow> config \<Rightarrow> failure + config" where
  "f t switch c =
     (case pc c t of
        W_new \<Rightarrow>
          and_then (PyThreadState_New t (arg_interp c t) (rt c)) (\<lambda>(ts, r).
            Inr (goes t W_restore r (c\<lparr>var_state := (var_state c)(t := ts)\<rparr>)))
      | W_restore \<Rightarrow>
          and_then (PyEval_RestoreThread t (var_state c t) (rt c)) (\<lambda>r.
            Inr (goes t W_swap r c))
      | W_swap \<Rightarrow>
          and_then (swap_tstate_scope_ctor t (var_state c t) (rt c)) (\<lambda>(sw, r).
            Inr (goes t W_run r (c\<lparr>var_swap := (var_swap c)(t := sw)\<rparr>)))
      | W_run \<Rightarrow>
          (case f_code (arg_tname c t) of
             None \<Rightarrow> Inl Unmodelled
           | Some code \<Rightarrow>
               and_then (PyRun_SimpleString t code (rt c)) (\<lambda>(sc, r).
                 Inr (goes t (W_script sc) r c)))
      | W_script sc \<Rightarrow>
          and_then (PyRun_continue t switch sc (rt c)) (\<lambda>(sc', r).
            Inr (goes t (case sc' of Returned rc \<Rightarrow> W_unswap | _ \<Rightarrow> W_script sc') r c))
      | W_unswap \<Rightarrow>
          and_then (swap_tstate_scope_dtor t (var_swap c t) (rt c)) (\<lambda>r.
            Inr (goes t W_clear r c))
      | W_clear \<Rightarrow>
          and_then (PyThreadState_Clear t (var_state c t) (rt c)) (\<lambda>r.
            Inr (goes t W_delete r c))
      | W_delete \<Rightarrow>
          and_then (PyThreadState_DeleteCurrent t (rt c)) (\<lambda>r.
            Inr (goes t Done r c))
      | _ \<Rightarrow> Inl Blocked)"

text \<open>The threads main constructs, and the value of the first argument of \<open>f\<close>.\<close>

definition main_threads :: "sub_interpreter \<Rightarrow> sub_interpreter \<Rightarrow> thread_ctor list" where
  "main_threads s1 s2 =
     [(1, Interp_of s1, ''t1(s1)''), (2, Interp_of s2, ''t2(s2)''),
      (3, Interp_of s1, ''t3(s1)''), (4, Interp_current, ''t4(main)'')]"

definition eval_arg :: "thread_id \<Rightarrow> arg \<Rightarrow> runtime \<Rightarrow> failure + (interp_ptr \<times> runtime)" where
  "eval_arg t a s =
     (case a of
        Interp_of ts \<Rightarrow> and_then (sub_interpreter_interp ts s) (\<lambda>i. Inr (i, s))
      | Interp_current \<Rightarrow> sub_interpreter_current t s)"

text \<open>
  The next action of main between the construction of \<open>s2\<close> and the end of the block.
  Joining a thread that was never constructed is an error.
\<close>

definition main_body :: "thread_id \<Rightarrow> bool \<Rightarrow> config \<Rightarrow> failure + config" where
  "main_body t switch c =
     (case pc c t of
        M_run \<Rightarrow>
          and_then (PyRun_SimpleString t main_code (rt c)) (\<lambda>(sc, r).
            Inr (goes t (M_script sc) r c))
      | M_script sc \<Rightarrow>
          and_then (PyRun_continue t switch sc (rt c)) (\<lambda>(sc', r).
            Inr (goes t (case sc' of
                           Returned rc \<Rightarrow> Spawn (main_threads (var_s1 c) (var_s2 c)) [1, 2, 3, 4]
                         | _ \<Rightarrow> M_script sc') r c))
      | Spawn ws ks \<Rightarrow>
          (case ws of
             (k, a, tname) # ws' \<Rightarrow>
               if pc c k \<noteq> Absent then Inl Fatal
               else
                 and_then (eval_arg t a (rt c)) (\<lambda>(i, r).
                   Inr (goes t (Spawn ws' ks) r
                          (c\<lparr>pc := (pc c)(k := W_new), arg_interp := (arg_interp c)(k := i),
                             arg_tname := (arg_tname c)(k := tname)\<rparr>)))
           | [] \<Rightarrow>
               and_then (enable_threads_scope_ctor t (rt c)) (\<lambda>(st, r).
                 Inr (goes t (Join ks) r (c\<lparr>var_state := (var_state c)(t := st)\<rparr>))))
      | Join ks \<Rightarrow>
          (case ks of
             k # ks' \<Rightarrow>
               if pc c k = Absent then Inl Fatal
               else if pc c k = Done then Inr (goes t (Join ks') (rt c) c)
               else Inl Blocked
           | [] \<Rightarrow>
               and_then (enable_threads_scope_dtor t (var_state c t) (rt c)) (\<lambda>r.
                 Inr (goes t Finished r c)))
      | _ \<Rightarrow> Inl Blocked)"

fun worker_point :: "point \<Rightarrow> bool" where
  "worker_point W_new = True"
| "worker_point W_restore = True"
| "worker_point W_swap = True"
| "worker_point W_run = True"
| "worker_point (W_script sc) = True"
| "worker_point W_unswap = True"
| "worker_point W_clear = True"
| "worker_point W_delete = True"
| "worker_point Done = True"
| "worker_point _ = False"

definition step :: "thread_id \<Rightarrow> bool \<Rightarrow> config \<Rightarrow> failure + config" where
  "step t switch c =
     (if worker_point (pc c t) then f t switch c else main_body t switch c)"

fun run_sched :: "(thread_id \<times> bool) list \<Rightarrow> config \<Rightarrow> failure + config" where
  "run_sched [] c = Inr c"
| "run_sched ((t, switch) # ts) c = and_then (step t switch c) (run_sched ts)"

definition process :: "thread_id \<Rightarrow> sub_interpreter \<Rightarrow> sub_interpreter \<Rightarrow> runtime \<Rightarrow> config" where
  "process m s1 s2 r =
     \<lparr>rt = r, pc = (\<lambda>_. Absent)(m := M_run), arg_interp = (\<lambda>_. 0), arg_tname = (\<lambda>_. []),
      var_state = (\<lambda>_. None), var_swap = (\<lambda>_. None), var_s1 = s1, var_s2 = s2\<rparr>"

text \<open>
  main.  Until \<open>s2\<close> is constructed, and again after the block, main is the only thread.
  When the schedule ends before main has joined the four threads and taken the lock
  back, main has not returned.
\<close>

definition main ::
  "bool \<Rightarrow> bool \<Rightarrow> (thread_id \<times> bool) list \<Rightarrow> runtime \<Rightarrow> failure + (int \<times> runtime)" where
  "main ok1 ok2 sched s0 =
     and_then (initialize_ctor 0 s0) (\<lambda>sa.
     and_then (sub_interpreter_ctor 0 ok1 sa) (\<lambda>(s1, sb).
     and_then (sub_interpreter_ctor 0 ok2 sb) (\<lambda>(s2, sc).
     and_then (run_sched sched (process 0 s1 s2 sc)) (\<lambda>c.
     if pc c 0 \<noteq> Finished then Inl Blocked
     else
       and_then (sub_interpreter_dtor 0 s2 (rt c)) (\<lambda>si.
       and_then (sub_interpreter_dtor 0 s1 si) (\<lambda>sj.
       and_then (initialize_dtor 0 sj) (\<lambda>sk. Inr (0, sk))))))))"

section \<open>Vocabulary of the properties\<close>

text \<open>The state right after \<open>initialize init;\<close> on thread 0 of a fresh process.\<close>

definition booted :: runtime where
  "booted =
     \<lparr>initialized = True, gil = Some 0, current = (\<lambda>_. None)(0 := Some 1),
      tstates = [(1, \<lparr>interp = 1, cleared = False\<rparr>)], interps = [1],
      sys_attrs = (\<lambda>_. [])(1 := []), stdout = [],
      calls = [(0, Call_InitializeEx), (0, Call_InitThreads)]\<rparr>"

text \<open>The same process once thread 0 has released the lock.\<close>

definition released :: runtime where
  "released =
     \<lparr>initialized = True, gil = None, current = (\<lambda>_. None),
      tstates = [(1, \<lparr>interp = 1, cleared = False\<rparr>)], interps = [1],
      sys_attrs = (\<lambda>_. [])(1 := []), stdout = [],
      calls = [(0, Call_InitializeEx), (0, Call_InitThreads), (0, Call_SaveThread)]\<rparr>"

text \<open>
  The binding of a thread as its guards see it: inside an \<open>enable_threads_scope\<close>, the
  thread state the guard keeps in \<open>_state\<close>; otherwise the current thread state of the
  runtime.
\<close>

definition binding ::
  "thread_id \<Rightarrow> enable_threads_scope option \<Rightarrow> runtime \<Rightarrow> tstate_ptr option" where
  "binding t scope s = (case scope of None \<Rightarrow> current s t | Some state \<Rightarrow> state)"

text \<open>Nothing but the current thread state of thread \<open>t\<close> (and the log) differs.\<close>

definition only_current_changed :: "thread_id \<Rightarrow> runtime \<Rightarrow> runtime \<Rightarrow> bool" where
  "only_current_changed t s s' \<longleftrightarrow>
     initialized s' = initialized s \<and> gil s' = gil s \<and> tstates s' = tstates s \<and>
     interps s' = interps s \<and> sys_attrs s' = sys_attrs s \<and> stdout s' = stdout s \<and>
     (\<forall>u. u \<noteq> t \<longrightarrow> current s' u = current s u)"

text \<open>
  Rebinding inside a scope: swapping any thread state (or NULL) in, and creating an
  interpreter, which makes the new interpreter's thread state current.
\<close>

datatype rebinding = Rebind_Swap "tstate_ptr option" | Rebind_NewInterpreter bool

fun rebind :: "thread_id \<Rightarrow> rebinding \<Rightarrow> runtime \<Rightarrow> failure + runtime" where
  "rebind t (Rebind_Swap ts) s = and_then (PyThreadState_Swap t ts s) (\<lambda>(old, s'). Inr s')"
| "rebind t (Rebind_NewInterpreter ok) s =
     and_then (Py_NewInterpreter t ok s) (\<lambda>(ts, s'). Inr s')"

fun rebind_all :: "thread_id \<Rightarrow> rebinding list \<Rightarrow> runtime \<Rightarrow> failure + runtime" where
  "rebind_all t [] s = Inr s"
| "rebind_all t (x # xs) s = and_then (rebind t x s) (rebind_all t xs)"

text \<open>
  The runtime of main when it has constructed \<open>s1\<close> and \<open>s2\<close>: three interpreters, each
  with its first thread state; the one of the main interpreter is current.
\<close>

definition built :: runtime where
  "built =
     \<lparr>initialized = True, gil = Some 0, current = (\<lambda>_. None)(0 := Some 1),
      tstates = [(3, \<lparr>interp = 3, cleared = False\<rparr>), (2, \<lparr>interp = 2, cleared = False\<rparr>),
                 (1, \<lparr>interp = 1, cleared = False\<rparr>)],
      interps = [3, 2, 1],
      sys_attrs = (\<lambda>_. [])(1 := [], 2 := [], 3 := []),
      stdout = [],
      calls = [(0, Call_InitializeEx), (0, Call_InitThreads),
               (0, Call_ThreadState_Get), (0, Call_NewInterpreter),
               (0, Call_ThreadState_Swap (Some 1)),
               (0, Call_ThreadState_Get), (0, Call_NewInterpreter),
               (0, Call_ThreadState_Swap (Some 1))]\<rparr>"

text \<open>The line \<open>f\<close> prints for a thread name, given the \<open>sys\<close> namespace it runs in.\<close>

definition f_prints :: "string \<Rightarrow> (string \<times> pyval) list \<Rightarrow> string" where
  "f_prints tname ns =
     tname @ '': sys.xxx='' @
     py_str (case map_of ns ''xxx'' of None \<Rightarrow> PyStr ''attribute not set'' | Some v \<Rightarrow> v)"

text \<open>
  The instructions left and the stack of the script of \<open>f\<close>, before each of its three
  instructions and after the last; the same for the script of main, with the namespace of
  the main interpreter and what has been printed.
\<close>

definition f_frames :: "string \<Rightarrow> (string \<times> pyval) list \<Rightarrow> (py_op list \<times> pyval list) list" where
  "f_frames tname ns =
     [([Op_getattr_sys ''xxx'' (PyStr ''attribute not set''),
        Op_format (tname @ '': sys.xxx=''), Op_print], []),
      ([Op_format (tname @ '': sys.xxx=''), Op_print],
       [case map_of ns ''xxx'' of None \<Rightarrow> PyStr ''attribute not set'' | Some v \<Rightarrow> v]),
      ([Op_print], [PyStr (f_prints tname ns)]),
      ([], [])]"

definition main_frames ::
  "(py_op list \<times> pyval list \<times> (string \<times> pyval) list \<times> (interp_ptr \<times> string) list) list" where
  "main_frames =
     [([Op_const (PyStrList [''abc'']), Op_set_sys_attr ''xxx'', Op_sys_attr ''xxx'',
        Op_format ''main: setting sys.xxx='', Op_print], [], [], []),
      ([Op_set_sys_attr ''xxx'', Op_sys_attr ''xxx'', Op_format ''main: setting sys.xxx='',
        Op_print], [PyStrList [''abc'']], [], []),
      ([Op_sys_attr ''xxx'', Op_format ''main: setting sys.xxx='', Op_print], [],
       [(''xxx'', PyStrList [''abc''])], []),
      ([Op_format ''main: setting sys.xxx='', Op_print], [PyStrList [''abc'']],
       [(''xxx'', PyStrList [''abc''])], []),
      ([Op_print], [PyStr ''main: setting sys.xxx=['abc']''],
       [(''xxx'', PyStrList [''abc''])], []),
      ([], [], [(''xxx'', PyStrList [''abc''])], [(1, ''main: setting sys.xxx=['abc']'')])]"

text \<open>
  Points at which a thread holds the lock, at which it owns a thread state it created, and
  at which it has printed its line.
\<close>

fun holding :: "point \<Rightarrow> bool" where
  "holding M_run = True"
| "holding (M_script (Running p ops stk)) = True"
| "holding (Spawn ws ks) = True"
| "holding Finished = True"
| "holding W_swap = True"
| "holding W_run = True"
| "holding (W_script (Running p ops stk)) = True"
| "holding W_unswap = True"
| "holding W_clear = True"
| "holding W_delete = True"
| "holding _ = False"

fun active :: "point \<Rightarrow> bool" where
  "active W_restore = True"
| "active W_swap = True"
| "active W_run = True"
| "active (W_script sc) = True"
| "active W_unswap = True"
| "active W_clear = True"
| "active W_delete = True"
| "active _ = False"

fun printed :: "point \<Rightarrow> bool" where
  "printed (W_script (Running p ops stk)) = (ops = [])"
| "printed (W_script (Waiting p ops stk)) = (ops = [])"
| "printed (W_script (Returned rc)) = True"
| "printed W_unswap = True"
| "printed W_clear = True"
| "printed W_delete = True"
| "printed Done = True"
| "printed _ = False"

text \<open>The interpreter an argument of \<open>f\<close> evaluates to, in a runtime \<open>r0\<close>, for main \<open>m\<close>.\<close>

definition arg_value :: "runtime \<Rightarrow> thread_id \<Rightarrow> arg \<Rightarrow> interp_ptr option" where
  "arg_value r0 m a =
     (case (case a of Interp_of ts \<Rightarrow> ts | Interp_current \<Rightarrow> current r0 m) of
        None \<Rightarrow> None
      | Some p \<Rightarrow> map_option interp (map_of (tstates r0) p))"

text \<open>
  What holds of every configuration main and its threads can reach while main runs its
  script, when only main exists: the thread states and interpreters are those of \<open>built\<close>,
  the namespaces of \<open>s1\<close> and \<open>s2\<close> are empty, and the script stands at one of its six
  stages, with or without the lock.
\<close>

definition inv_solo :: "config \<Rightarrow> bool" where
  "inv_solo c \<longleftrightarrow>
     (\<forall>t. t \<noteq> 0 \<longrightarrow> pc c t = Absent) \<and> var_s1 c = Some 2 \<and> var_s2 c = Some 3 \<and>
     initialized (rt c) \<and> tstates (rt c) = tstates built \<and> interps (rt c) = interps built \<and>
     (\<forall>i. i \<noteq> 1 \<longrightarrow> sys_attrs (rt c) i = []) \<and>
     ((pc c 0 = M_run \<and> gil (rt c) = Some 0 \<and> current (rt c) 0 = Some 1 \<and>
       sys_attrs (rt c) 1 = [] \<and> stdout (rt c) = []) \<or>
      (\<exists>fr \<in> set main_frames.
         sys_attrs (rt c) 1 = fst (snd (snd fr)) \<and> stdout (rt c) = snd (snd (snd fr)) \<and>
         ((pc c 0 = M_script (Running 1 (fst fr) (fst (snd fr))) \<and> gil (rt c) = Some 0 \<and>
           current (rt c) 0 = Some 1) \<or>
          (pc c 0 = M_script (Waiting 1 (fst fr) (fst (snd fr))) \<and> gil (rt c) = None))))"

text \<open>
  What holds of every configuration they can reach from then on, from a runtime \<open>r0\<close> in
  which the main thread \<open>m\<close> holds the lock and is about to construct the threads \<open>plan\<close>:
  the lock is held by the one thread that stands at a holding point, if any; the thread
  states are those of \<open>r0\<close> and, in front of them, one for each thread between its
  \<open>PyThreadState_New\<close> and its \<open>PyThreadState_DeleteCurrent\<close>, which is the one its
  variable \<open>_ts\<close> points to, belongs to the interpreter the thread was given and is
  cleared exactly when the thread is about to delete it; a thread that holds the lock has
  its own thread state current; a script under execution stands at one of its four
  stages; interpreters and namespaces are those of \<open>r0\<close>; the arguments of a thread are
  those main constructed it with; and what has been printed since is one line of each
  thread that has executed its \<open>print\<close>.
\<close>

definition inv_static :: "thread_id \<Rightarrow> thread_ctor list \<Rightarrow> runtime \<Rightarrow> bool" where
  "inv_static m plan r0 \<longleftrightarrow>
     initialized r0 \<and> m \<notin> fst ` set plan \<and> distinct (map fst plan) \<and>
     (\<exists>p0. current r0 m = Some p0 \<and> map_of (tstates r0) p0 \<noteq> None) \<and>
     (\<forall>w \<in> set plan. plain_name (snd (snd w)) \<and>
        (\<exists>i. arg_value r0 m (fst (snd w)) = Some i \<and> i \<in> set (interps r0)))"

definition inv_rt :: "runtime \<Rightarrow> config \<Rightarrow> bool" where
  "inv_rt r0 c \<longleftrightarrow>
     initialized (rt c) \<and> interps (rt c) = interps r0 \<and> sys_attrs (rt c) = sys_attrs r0"

definition inv_lock :: "config \<Rightarrow> bool" where
  "inv_lock c \<longleftrightarrow> (\<forall>t. holding (pc c t) = (gil (rt c) = Some t))"

definition inv_heap :: "runtime \<Rightarrow> config \<Rightarrow> bool" where
  "inv_heap r0 c \<longleftrightarrow>
     (\<exists>ws. tstates (rt c) = ws @ tstates r0 \<and>
        (\<forall>e \<in> set ws. fst e \<notin> fst ` set (tstates r0) \<and>
           (\<exists>t. active (pc c t) \<and> var_state c t = Some (fst e))) \<and>
        (\<forall>t. active (pc c t) \<longrightarrow>
           (\<exists>p. var_state c t = Some p \<and>
              map_of ws p = Some \<lparr>interp = arg_interp c t, cleared = (pc c t = W_delete)\<rparr>)) \<and>
        (\<forall>t u. active (pc c t) \<and> active (pc c u) \<and> var_state c t = var_state c u \<longrightarrow> t = u))"

definition inv_cur :: "config \<Rightarrow> bool" where
  "inv_cur c \<longleftrightarrow>
     (\<forall>t. (active (pc c t) \<and> holding (pc c t) \<longrightarrow> current (rt c) t = var_state c t) \<and>
          (pc c t = W_run \<or> (\<exists>sc. pc c t = W_script sc) \<or> pc c t = W_unswap \<longrightarrow>
             var_swap c t = var_state c t))"

definition inv_script :: "runtime \<Rightarrow> config \<Rightarrow> bool" where
  "inv_script r0 c \<longleftrightarrow>
     (\<forall>t sc. pc c t = W_script sc \<longrightarrow>
        (\<exists>p. var_state c t = Some p \<and>
           (\<exists>fr \<in> set (f_frames (arg_tname c t) (sys_attrs r0 (arg_interp c t))).
              sc = Running p (fst fr) (snd fr) \<or> sc = Waiting p (fst fr) (snd fr))))"

definition inv_main :: "thread_id \<Rightarrow> thread_ctor list \<Rightarrow> runtime \<Rightarrow> config \<Rightarrow> bool" where
  "inv_main m plan r0 c \<longleftrightarrow>
     (\<exists>ds ws. pc c m = Spawn ws (map fst plan) \<and> plan = ds @ ws \<and>
        (\<forall>d \<in> set ds. pc c (fst d) \<noteq> Absent) \<and> (\<forall>w \<in> set ws. pc c (fst w) = Absent) \<and>
        current (rt c) m = current r0 m) \<or>
     (\<exists>ds ks. pc c m = Join ks \<and> map fst plan = ds @ ks \<and> (\<forall>k \<in> set ds. pc c k = Done) \<and>
        (\<forall>k \<in> set ks. pc c k \<noteq> Absent) \<and> var_state c m = current r0 m) \<or>
     (pc c m = Finished \<and> current (rt c) m = current r0 m \<and>
        (\<forall>k \<in> fst ` set plan. pc c k = Done))"

definition inv_threads :: "thread_id \<Rightarrow> thread_ctor list \<Rightarrow> runtime \<Rightarrow> config \<Rightarrow> bool" where
  "inv_threads m plan r0 c \<longleftrightarrow>
     (\<forall>t. t \<noteq> m \<longrightarrow>
        pc c t = Absent \<or>
        (worker_point (pc c t) \<and>
         (\<exists>a. (t, a, arg_tname c t) \<in> set plan \<and> arg_value r0 m a = Some (arg_interp c t))))"

definition inv_out :: "runtime \<Rightarrow> config \<Rightarrow> bool" where
  "inv_out r0 c \<longleftrightarrow>
     (\<exists>order. distinct order \<and> set order = {t. printed (pc c t)} \<and>
        stdout (rt c) =
          stdout r0 @
          map (\<lambda>t. (arg_interp c t, f_prints (arg_tname c t) (sys_attrs r0 (arg_interp c t))))
            order)"

definition inv :: "thread_id \<Rightarrow> thread_ctor list \<Rightarrow> runtime \<Rightarrow> config \<Rightarrow> bool" where
  "inv m plan r0 c \<longleftrightarrow>
     inv_static m plan r0 \<and> inv_rt r0 c \<and> inv_lock c \<and> inv_heap r0 c \<and> inv_cur c \<and>
     inv_main m plan r0 c \<and> inv_threads m plan r0 c \<and> inv_out r0 c \<and> inv_script r0 c"

text \<open>The runtime when the script of main has returned, and the two phases together.\<close>

definition after_script :: "runtime \<Rightarrow> bool" where
  "after_script r0 \<longleftrightarrow>
     initialized r0 \<and> gil r0 = Some 0 \<and> current r0 0 = Some 1 \<and>
     tstates r0 = tstates built \<and> interps r0 = interps built \<and>
     sys_attrs r0 = (\<lambda>_. [])(1 := [(''xxx'', PyStrList [''abc''])]) \<and>
     stdout r0 = [(1, ''main: setting sys.xxx=['abc']'')]"

definition reachable :: "config \<Rightarrow> bool" where
  "reachable c \<longleftrightarrow>
     inv_solo c \<or> (\<exists>r0. after_script r0 \<and> inv 0 (main_threads (Some 2) (Some 3)) r0 c)"

text \<open>
  One schedule among many.  main runs its script, handing the lock over and taking it
  back once on the way, and constructs the four threads; thread 1 creates its thread
  state while main still holds the lock.  When main has released the lock, thread 2
  enters its script, reads the attribute and then hands the lock over; thread 3 takes the
  lock, runs its whole script and leaves; thread 2 takes the lock back, prints and
  leaves; threads 1 and 4 follow, and main joins and takes the lock back.
\<close>

definition interleaved :: "(thread_id \<times> bool) list" where
  "interleaved =
     [(0, False), (0, True), (0, False), (0, False), (0, False), (0, False), (0, False),
      (0, False), (0, False),
      (0, False), (1, False), (0, False), (0, False), (0, False), (2, False), (0, False),
      (2, False), (2, False), (2, False), (2, False), (2, True),
      (3, False), (3, False), (3, False), (3, False), (3, False), (3, False), (3, False),
      (3, False), (3, False), (3, False), (3, False),
      (2, False), (2, False), (2, False), (2, False), (2, False), (2, False), (2, False),
      (1, False), (1, False), (1, False), (1, False), (1, False), (1, False), (1, False),
      (1, False), (1, False), (1, False),
      (0, False), (0, False), (0, False),
      (4, False), (4, False), (4, False), (4, False), (4, False), (4, False), (4, False),
      (4, False), (4, False), (4, False), (4, False),
      (0, False), (0, False)]"

text \<open>
  A bound on the actions a thread has left when the lock is not handed over any more, and
  the sum of the bounds for main and its four threads.
\<close>

fun script_left :: "script \<Rightarrow> nat" where
  "script_left (Running p ops stk) = 2 * length ops + 2"
| "script_left (Waiting p ops stk) = 2 * length ops + 3"
| "script_left (Returned rc) = 0"

fun left :: "point \<Rightarrow> nat" where
  "left Absent = 17"
| "left M_run = 40"
| "left (M_script sc) = 20 + script_left sc"
| "left (Spawn ws ks) = 2 + length ks + length ws"
| "left (Join ks) = 1 + length ks"
| "left Finished = 0"
| "left W_new = 16"
| "left W_restore = 15"
| "left W_swap = 14"
| "left W_run = 13"
| "left (W_script sc) = 3 + script_left sc"
| "left W_unswap = 3"
| "left W_clear = 2"
| "left W_delete = 1"
| "left Done = 0"

definition todo :: "config \<Rightarrow> nat" where
  "todo c = left (pc c 0) + left (pc c 1) + left (pc c 2) + left (pc c 3) + left (pc c 4)"

section \<open>Basic facts\<close>

lemma and_then_Inl [simp]: "and_then (Inl e) k = Inl e"
  by (simp add: and_then_def)

lemma and_then_Inr [simp]: "and_then (Inr x) k = k x"
  by (simp add: and_then_def)

lemma fold_max_ge: "x \<in> set xs \<Longrightarrow> x \<le> fold max xs (a::nat)"
proof (induction xs arbitrary: a)
  case Nil
  then show ?case by simp
next
  case (Cons y ys)
  have mono: "b \<le> fold max ys b" for b :: nat
    by (induction ys arbitrary: b) (auto intro: order_trans [OF max.cobounded2])
  from Cons show ?case
    by (auto intro: order_trans [OF max.cobounded1 mono])
qed

lemma fresh_ptr_new: "fresh_ptr xs \<notin> set xs"
  using fold_max_ge [of "fresh_ptr xs" xs 0] by (auto simp: fresh_ptr_def)

lemma map_of_mark:
  "map_of (map (\<lambda>e. if fst e = p then (p, g (snd e)) else e) xs) q =
     (if q = p then map_option g (map_of xs p) else map_of xs q)"
  by (induction xs) auto

lemma map_of_remove:
  "map_of (filter (\<lambda>e. fst e \<noteq> p) xs) q = (if q = p then None else map_of xs q)"
  by (induction xs) auto

lemma mark_absent:
  "p \<notin> fst ` set xs \<Longrightarrow> map (\<lambda>e. if fst e = p then (p, g (snd e)) else e) xs = xs"
  by (induction xs) auto

lemma remove_absent: "p \<notin> fst ` set xs \<Longrightarrow> filter (\<lambda>e. fst e \<noteq> p) xs = xs"
  by (induction xs) auto

lemma fresh_tstate: "fresh_ptr (map fst (tstates s)) \<notin> fst ` set (tstates s)"
  using fresh_ptr_new [of "map fst (tstates s)"] by simp

lemma booted_is_init: "initialize_ctor 0 not_started = Inr booted"
  by (simp add: initialize_ctor_def Py_InitializeEx_def PyEval_InitThreads_def not_started_def
      logged_def booted_def fresh_ptr_def)

lemma released_is_release: "enable_threads_scope_ctor 0 booted = Inr (Some 1, released)"
  by (simp add: enable_threads_scope_ctor_def PyEval_SaveThread_def logged_def booted_def
      released_def)

section \<open>swap_tstate_scope\<close>

text \<open>
  Claim C5.  With the lock held by the calling thread, the constructor of
  \<open>swap_tstate_scope\<close> makes the target (any thread state, or NULL) the current thread
  state and keeps the one that was current, whatever it was; the destructor, run in any
  later state in which the thread holds the lock, makes the kept one current again.
  Each of the two is one call of \<open>PyThreadState_Swap\<close>: the holder of the lock and
  everything else but the thread's current thread state stay as they were.
\<close>

theorem swap_tstate_scope_only_rebinds:
  assumes "gil s = Some t"
  shows "\<exists>s1. swap_tstate_scope_ctor t target s = Inr (current s t, s1) \<and>
           current s1 t = target \<and> only_current_changed t s s1 \<and>
           calls s1 = calls s @ [(t, Call_ThreadState_Swap target)] \<and>
           (\<forall>s2. gil s2 = Some t \<longrightarrow>
              (\<exists>s3. swap_tstate_scope_dtor t (current s t) s2 = Inr s3 \<and>
                 current s3 t = current s t \<and> only_current_changed t s2 s3 \<and>
                 calls s3 = calls s2 @ [(t, Call_ThreadState_Swap (current s t))]))"
  using assms
  by (simp add: swap_tstate_scope_ctor_def swap_tstate_scope_dtor_def PyThreadState_Swap_def
      logged_def only_current_changed_def)

theorem swap_tstate_scope_only_rebinds_witness:
  "gil booted = Some 0 \<and>
   (\<exists>s1. swap_tstate_scope_ctor 0 None booted = Inr (Some 1, s1) \<and>
      current s1 0 = None \<and> gil s1 = Some 0 \<and>
      (\<exists>s3. swap_tstate_scope_dtor 0 (Some 1) s1 = Inr s3 \<and>
         current s3 0 = Some 1 \<and> gil s3 = Some 0))"
proof -
  have h: "gil booted = Some 0" and c: "current booted 0 = Some 1"
    by (simp_all add: booted_def)
  from swap_tstate_scope_only_rebinds [OF h, of None]
  obtain s1 where
    s1: "swap_tstate_scope_ctor 0 None booted = Inr (current booted 0, s1)"
      "current s1 0 = None" "only_current_changed 0 booted s1" and
    again: "\<forall>s2. gil s2 = Some 0 \<longrightarrow>
      (\<exists>s3. swap_tstate_scope_dtor 0 (current booted 0) s2 = Inr s3 \<and>
         current s3 0 = current booted 0 \<and> only_current_changed 0 s2 s3 \<and>
         calls s3 = calls s2 @ [(0, Call_ThreadState_Swap (current booted 0))])"
    by blast
  from s1(3) h have g1: "gil s1 = Some 0"
    by (simp add: only_current_changed_def)
  from again [rule_format, OF g1] g1 s1 h show ?thesis
    by (auto simp add: c only_current_changed_def)
qed

section \<open>restore_tstate_scope\<close>

lemma rebind_keeps_lock:
  assumes "initialized s" "gil s = Some t"
  shows "\<exists>s'. rebind t x s = Inr s' \<and> initialized s' \<and> gil s' = Some t"
  using assms
  by (cases x) (auto simp: PyThreadState_Swap_def Py_NewInterpreter_def logged_def Let_def)

lemma rebind_all_keeps_lock:
  assumes "initialized s" "gil s = Some t"
  shows "\<exists>s'. rebind_all t xs s = Inr s' \<and> initialized s' \<and> gil s' = Some t"
  using assms
proof (induction xs arbitrary: s)
  case Nil
  then show ?case by simp
next
  case (Cons x xs)
  from rebind_keeps_lock [OF Cons.prems, of x]
  obtain s1 where "rebind t x s = Inr s1" "initialized s1" "gil s1 = Some t" by blast
  with Cons.IH [of s1] show ?case by simp
qed

text \<open>
  The scope around any body at all: if the body comes back, by return or by exception,
  with the lock held by the thread, the thread state that was current at entry is
  current after the destructor, and the destructor changes nothing else.
\<close>

lemma restore_tstate_scope_any_body:
  assumes "gil s = Some t" "current s t \<noteq> None"
    and "body (logged t Call_ThreadState_Get s) = Inr (r, s2)" "gil s2 = Some t"
  shows "\<exists>s3. scoped (restore_tstate_scope_ctor t) (restore_tstate_scope_dtor t) body s
                 = Inr (r, s3) \<and>
           current s3 t = current s t \<and> only_current_changed t s2 s3"
  using assms
  by (simp add: scoped_def restore_tstate_scope_ctor_def restore_tstate_scope_dtor_def
      PyThreadState_Get_def PyThreadState_Swap_def logged_def only_current_changed_def)

text \<open>
  Claim C2.  A thread that holds the lock and has a current thread state enters a
  \<open>restore_tstate_scope\<close> and performs any sequence of rebinding operations inside it
  (swapping in any thread state or NULL, creating interpreters, with or without
  success).  The block returns, and the thread's current thread state right after the
  scope is the one that was current at entry.
\<close>

theorem restore_tstate_scope_restores:
  assumes "initialized s" "gil s = Some t" "current s t \<noteq> None"
  shows "\<exists>s3. scoped (restore_tstate_scope_ctor t) (restore_tstate_scope_dtor t)
                (\<lambda>s1. and_then (rebind_all t ops s1) (\<lambda>s2. Inr (Returns (), s2))) s
              = Inr (Returns (), s3) \<and>
           current s3 t = current s t \<and> gil s3 = Some t"
proof -
  let ?s1 = "logged t Call_ThreadState_Get s"
  have "initialized ?s1" "gil ?s1 = Some t"
    using assms by (simp_all add: logged_def)
  from rebind_all_keeps_lock [OF this, of ops]
  obtain s2 where s2: "rebind_all t ops ?s1 = Inr s2" "gil s2 = Some t" by blast
  have "(\<lambda>s1. and_then (rebind_all t ops s1) (\<lambda>s2. Inr (Returns (), s2))) ?s1
          = Inr (Returns (), s2)"
    using s2 by simp
  from restore_tstate_scope_any_body
    [where body = "\<lambda>s1. and_then (rebind_all t ops s1) (\<lambda>s2. Inr (Returns (), s2))",
      OF assms(2,3) this s2(2)] s2(2)
  show ?thesis by (auto simp: only_current_changed_def)
qed

theorem restore_tstate_scope_restores_witness:
  "initialized booted \<and> gil booted = Some 0 \<and> current booted 0 = Some 1 \<and>
   (\<exists>s3. scoped (restore_tstate_scope_ctor 0) (restore_tstate_scope_dtor 0)
            (\<lambda>s1. and_then
               (rebind_all 0 [Rebind_NewInterpreter True, Rebind_Swap None, Rebind_Swap (Some 7)] s1)
               (\<lambda>s2. Inr (Returns (), s2))) booted
          = Inr (Returns (), s3) \<and>
      current s3 0 = Some 1)"
proof -
  have h: "initialized booted" "gil booted = Some 0" and c: "current booted 0 = Some 1"
    by (simp_all add: booted_def)
  from c have n: "current booted 0 \<noteq> None" by simp
  from restore_tstate_scope_restores [OF h n,
      of "[Rebind_NewInterpreter True, Rebind_Swap None, Rebind_Swap (Some 7)]"]
  show ?thesis using h c by auto
qed

section \<open>sub_interpreter\<close>

text \<open>
  Claim C6.  A thread that holds the lock and has a current thread state constructs a
  \<open>sub_interpreter\<close>.  The constructor returns, and the thread's current thread state is
  the one that was current before the call, the lock still held.  When creation
  succeeds the object holds a thread state that did not exist before, whose interpreter
  did not exist before either and starts with an empty \<open>sys\<close> namespace; when it fails
  the object holds NULL and no thread state or interpreter was added.
\<close>

theorem sub_interpreter_ctor_keeps_current:
  assumes "initialized s" "gil s = Some t" "current s t = Some p"
  shows "\<exists>ts s'. sub_interpreter_ctor t ok s = Inr (ts, s') \<and>
           current s' t = Some p \<and> gil s' = Some t \<and>
           (if ok then
              \<exists>q. ts = Some q \<and> q \<notin> fst ` set (tstates s) \<and>
                deref_interp ts s' = Inr (fresh_ptr (interps s)) \<and>
                fresh_ptr (interps s) \<notin> set (interps s) \<and>
                interps s' = fresh_ptr (interps s) # interps s \<and>
                sys_attrs s' (fresh_ptr (interps s)) = []
            else ts = None \<and> tstates s' = tstates s \<and> interps s' = interps s)"
  using assms fresh_ptr_new [of "map fst (tstates s)"] fresh_ptr_new [of "interps s"]
  by (auto simp add: sub_interpreter_ctor_def restore_tstate_scope_ctor_def
      restore_tstate_scope_dtor_def PyThreadState_Get_def Py_NewInterpreter_def
      PyThreadState_Swap_def logged_def Let_def deref_interp_def tstate_at_def)

theorem sub_interpreter_ctor_keeps_current_witness:
  "initialized booted \<and> gil booted = Some 0 \<and> current booted 0 = Some 1 \<and>
   (\<exists>q s'. sub_interpreter_ctor 0 True booted = Inr (Some q, s') \<and>
      current s' 0 = Some 1 \<and> gil s' = Some 0 \<and> interps s' = [2, 1])"
proof -
  have h: "initialized booted" "gil booted = Some 0" "current booted 0 = Some 1"
    by (simp_all add: booted_def)
  have i: "interps booted = [1]" "fresh_ptr [Suc 0] = 2"
    by (simp_all add: booted_def fresh_ptr_def)
  from sub_interpreter_ctor_keeps_current [OF h, of True]
  show ?thesis using h by (auto simp add: i)
qed

text \<open>
  Claim C9.  The destructor of a \<open>sub_interpreter\<close> whose \<open>_ts\<close> is NULL returns the
  runtime exactly as it found it, log of interface calls included: no swap, no
  \<open>Py_EndInterpreter\<close>.  A constructor whose \<open>Py_NewInterpreter\<close> failed leaves such an
  object.
\<close>

theorem sub_interpreter_dtor_null:
  "sub_interpreter_dtor t None s = Inr s \<and>
   (\<forall>ts s'. sub_interpreter_ctor t False s = Inr (ts, s') \<longrightarrow>
      ts = None \<and> sub_interpreter_dtor t ts s' = Inr s')"
  by (auto simp add: sub_interpreter_dtor_def sub_interpreter_ctor_def
      restore_tstate_scope_ctor_def restore_tstate_scope_dtor_def PyThreadState_Get_def
      Py_NewInterpreter_def PyThreadState_Swap_def logged_def split: if_splits)

theorem sub_interpreter_dtor_null_witness:
  "sub_interpreter_dtor 0 None booted = Inr booted \<and>
   (\<exists>s'. sub_interpreter_ctor 0 False booted = Inr (None, s') \<and>
      sub_interpreter_dtor 0 None s' = Inr s' \<and>
      calls s' = calls booted @ [(0, Call_ThreadState_Get), (0, Call_NewInterpreter),
                                 (0, Call_ThreadState_Swap (Some 1))])"
proof -
  have c: "\<exists>s'. sub_interpreter_ctor 0 False booted = Inr (None, s') \<and>
      calls s' = calls booted @ [(0, Call_ThreadState_Get), (0, Call_NewInterpreter),
                                 (0, Call_ThreadState_Swap (Some 1))]"
    by (simp add: sub_interpreter_ctor_def restore_tstate_scope_ctor_def
        restore_tstate_scope_dtor_def PyThreadState_Get_def Py_NewInterpreter_def
        PyThreadState_Swap_def logged_def booted_def)
  with sub_interpreter_dtor_null [of 0 booted] show ?thesis by auto
qed

section \<open>thread_scope\<close>

lemma thread_scope_ctor_effect:
  assumes "i \<in> set (interps s)" "gil s = None"
  shows "thread_scope_ctor t i s =
           Inr (\<lparr>scope_state = Some (fresh_ptr (map fst (tstates s))),
                 scope_swap = Some (fresh_ptr (map fst (tstates s)))\<rparr>,
                s\<lparr>gil := Some t,
                  current := (current s)(t := Some (fresh_ptr (map fst (tstates s)))),
                  tstates := (fresh_ptr (map fst (tstates s)), \<lparr>interp = i, cleared = False\<rparr>)
                             # tstates s,
                  calls := calls s @ [(t, Call_ThreadState_New i),
                     (t, Call_RestoreThread (Some (fresh_ptr (map fst (tstates s))))),
                     (t, Call_ThreadState_Swap (Some (fresh_ptr (map fst (tstates s)))))]\<rparr>)"
  using assms
  by (simp add: thread_scope_ctor_def thread_state_ctor_def swap_tstate_scope_ctor_def
      PyThreadState_New_def PyEval_RestoreThread_def PyThreadState_Swap_def logged_def
      tstate_at_def Let_def)

lemma thread_scope_dtor_effect:
  assumes "gil s2 = Some t" "tstate_at s2 p = Some st"
  shows "thread_scope_dtor t \<lparr>scope_state = Some p, scope_swap = Some p\<rparr> s2 =
           Inr (s2\<lparr>gil := None, current := (current s2)(t := None),
                   tstates := filter (\<lambda>e. fst e \<noteq> p)
                     (map (\<lambda>e. if fst e = p then (p, (snd e)\<lparr>cleared := True\<rparr>) else e)
                        (tstates s2)),
                   calls := calls s2 @ [(t, Call_ThreadState_Swap (Some p)),
                     (t, Call_ThreadState_Clear (Some p)), (t, Call_ThreadState_DeleteCurrent)]\<rparr>)"
  using assms
  by (simp add: thread_scope_dtor_def thread_state_dtor_def swap_tstate_scope_dtor_def
      PyThreadState_Clear_def PyThreadState_DeleteCurrent_def PyThreadState_Swap_def logged_def
      tstate_at_def map_of_mark)

text \<open>
  Claim C1.  A thread enters a \<open>thread_scope\<close> for a live interpreter \<open>i\<close> while the lock is
  free.  The constructor returns; its three interface calls are, in this order,
  \<open>PyThreadState_New i\<close>, \<open>PyEval_RestoreThread\<close> of the new thread state and
  \<open>PyThreadState_Swap\<close> to the new thread state.  The thread state did not exist before,
  belongs to \<open>i\<close>, is current for the thread, and the thread holds the lock.  Whatever
  the body does and however it leaves (by return or by exception), as long as it
  leaves with the lock held and the thread state still allocated, the block as a whole
  returns with the body's way of leaving, the destructor's calls are, in this order,
  the swap back, \<open>PyThreadState_Clear\<close> of the thread state and
  \<open>PyThreadState_DeleteCurrent\<close>, and afterwards the thread state no longer exists, the
  thread has no current thread state and the lock is free.
\<close>

theorem thread_scope_attaches_swaps_unwinds_detaches:
  assumes "i \<in> set (interps s)" "gil s = None"
  shows "\<exists>p s1. thread_scope_ctor t i s = Inr (\<lparr>scope_state = Some p, scope_swap = Some p\<rparr>, s1) \<and>
           p \<notin> fst ` set (tstates s) \<and>
           tstate_at s1 p = Some \<lparr>interp = i, cleared = False\<rparr> \<and>
           current s1 t = Some p \<and> gil s1 = Some t \<and>
           calls s1 = calls s @ [(t, Call_ThreadState_New i), (t, Call_RestoreThread (Some p)),
                                 (t, Call_ThreadState_Swap (Some p))] \<and>
           (\<forall>body r s2. body s1 = Inr (r, s2) \<and> gil s2 = Some t \<and> tstate_at s2 p \<noteq> None \<longrightarrow>
              (\<exists>s3. scoped (thread_scope_ctor t i) (thread_scope_dtor t) body s = Inr (r, s3) \<and>
                 tstate_at s3 p = None \<and> current s3 t = None \<and> gil s3 = None \<and>
                 calls s3 = calls s2 @ [(t, Call_ThreadState_Swap (Some p)),
                                        (t, Call_ThreadState_Clear (Some p)),
                                        (t, Call_ThreadState_DeleteCurrent)]))"
proof -
  let ?p = "fresh_ptr (map fst (tstates s))"
  let ?s1 = "s\<lparr>gil := Some t, current := (current s)(t := Some ?p),
                tstates := (?p, \<lparr>interp = i, cleared = False\<rparr>) # tstates s,
                calls := calls s @ [(t, Call_ThreadState_New i), (t, Call_RestoreThread (Some ?p)),
                                    (t, Call_ThreadState_Swap (Some ?p))]\<rparr>"
  have ctor: "thread_scope_ctor t i s = Inr (\<lparr>scope_state = Some ?p, scope_swap = Some ?p\<rparr>, ?s1)"
    by (rule thread_scope_ctor_effect [OF assms])
  have leave: "\<exists>s3. scoped (thread_scope_ctor t i) (thread_scope_dtor t) body s = Inr (r, s3) \<and>
                 tstate_at s3 ?p = None \<and> current s3 t = None \<and> gil s3 = None \<and>
                 calls s3 = calls s2 @ [(t, Call_ThreadState_Swap (Some ?p)),
                                        (t, Call_ThreadState_Clear (Some ?p)),
                                        (t, Call_ThreadState_DeleteCurrent)]"
    if b: "body ?s1 = Inr (r, s2)" and g: "gil s2 = Some t" and l: "tstate_at s2 ?p \<noteq> None"
    for body :: "runtime \<Rightarrow> failure + ('a exit_path \<times> runtime)" and r s2
  proof -
    from l obtain st where st: "tstate_at s2 ?p = Some st" by blast
    show ?thesis
      by (simp add: scoped_def ctor b thread_scope_dtor_effect [OF g st] tstate_at_def
          map_of_remove)
  qed
  show ?thesis
    apply (rule exI [of _ ?p], rule exI [of _ ?s1])
    using ctor leave fresh_tstate [of s]
    apply (simp add: tstate_at_def)
    done
qed

theorem thread_scope_attaches_swaps_unwinds_detaches_witness:
  "1 \<in> set (interps released) \<and> gil released = None \<and>
   (\<exists>s3. scoped (thread_scope_ctor 5 1) (thread_scope_dtor 5)
            (\<lambda>s. Inr (Throws :: unit exit_path, s)) released = Inr (Throws, s3) \<and>
      current s3 5 = None \<and> gil s3 = None)"
proof -
  have h: "1 \<in> set (interps released)" "gil released = None"
    by (simp_all add: released_def)
  from thread_scope_attaches_swaps_unwinds_detaches [OF h, of 5, where ?'a = unit]
  obtain p s1 where
    live: "tstate_at s1 p = Some \<lparr>interp = 1, cleared = False\<rparr>" and
    lock: "gil s1 = Some 5" and
    unwind: "\<forall>(body :: runtime \<Rightarrow> failure + (unit exit_path \<times> runtime)) r s2.
       body s1 = Inr (r, s2) \<and> gil s2 = Some 5 \<and> tstate_at s2 p \<noteq> None \<longrightarrow>
       (\<exists>s3. scoped (thread_scope_ctor 5 1) (thread_scope_dtor 5) body released = Inr (r, s3) \<and>
          tstate_at s3 p = None \<and> current s3 5 = None \<and> gil s3 = None \<and>
          calls s3 = calls s2 @ [(5, Call_ThreadState_Swap (Some p)),
                                 (5, Call_ThreadState_Clear (Some p)),
                                 (5, Call_ThreadState_DeleteCurrent)])"
    by blast
  from unwind [rule_format, of "\<lambda>s. Inr (Throws, s)" Throws s1] live lock
  show ?thesis using h by auto
qed

text \<open>
  Claim C10.  In a \<open>thread_scope\<close> entered as above, the pointer kept by the member
  \<open>_swap\<close> is the pointer held by the member \<open>_state\<close>: the new thread state, which
  \<open>PyEval_RestoreThread\<close> had already made current when the swap ran.  So when the
  destructor of \<open>_swap\<close> has run, in any state in which the thread holds the lock, the
  current thread state is the one \<open>_state\<close> holds, and the destructor of \<open>_state\<close>, which
  clears the thread state it holds and deletes the current one, succeeds and removes
  exactly that thread state, provided it is still allocated.
\<close>

theorem thread_scope_swap_records_fresh_binding:
  assumes "i \<in> set (interps s)" "gil s = None"
  shows "\<exists>g s1. thread_scope_ctor t i s = Inr (g, s1) \<and>
           scope_state g \<noteq> None \<and> scope_swap g = scope_state g \<and>
           current s1 t = scope_state g \<and>
           (\<forall>s2. gil s2 = Some t \<longrightarrow>
              (\<exists>s3. swap_tstate_scope_dtor t (scope_swap g) s2 = Inr s3 \<and>
                 current s3 t = scope_state g \<and>
                 (\<forall>p. scope_state g = Some p \<and> tstate_at s2 p \<noteq> None \<longrightarrow>
                    (\<exists>s4. thread_state_dtor t (scope_state g) s3 = Inr s4 \<and>
                       tstates s4 = filter (\<lambda>e. fst e \<noteq> p)
                          (map (\<lambda>e. if fst e = p then (p, (snd e)\<lparr>cleared := True\<rparr>) else e)
                             (tstates s2))))))"
  using assms
  by (auto simp add: thread_scope_ctor_effect swap_tstate_scope_dtor_def thread_state_dtor_def
      PyThreadState_Swap_def PyThreadState_Clear_def PyThreadState_DeleteCurrent_def
      logged_def tstate_at_def map_of_mark)

theorem thread_scope_swap_records_fresh_binding_witness:
  "1 \<in> set (interps released) \<and> gil released = None \<and>
   (\<exists>g s1. thread_scope_ctor 5 1 released = Inr (g, s1) \<and> scope_swap g = Some 2 \<and>
      scope_state g = Some 2 \<and> current s1 5 = Some 2)"
proof -
  have h: "1 \<in> set (interps released)" "gil released = None"
    by (simp_all add: released_def)
  from thread_scope_swap_records_fresh_binding [OF h, of 5]
  obtain g s1 where
    c: "thread_scope_ctor 5 1 released = Inr (g, s1)" and
    e: "scope_swap g = scope_state g" "current s1 5 = scope_state g"
    by blast
  from c [unfolded thread_scope_ctor_effect [OF h]] have "scope_state g = Some 2"
    by (auto simp add: released_def fresh_ptr_def)
  with c e h show ?thesis by auto
qed

section \<open>enable_threads_scope\<close>

text \<open>
  Claim C4.  A thread that holds the lock with current thread state \<open>p\<close> enters an
  \<open>enable_threads_scope\<close>: the constructor returns \<open>p\<close> as the saved state and frees the
  lock.  Entering a second \<open>enable_threads_scope\<close> before leaving the first is fatal: a
  release is followed by its restore before the next release.  The destructor, run in
  any later state in which \<open>p\<close> is still allocated, waits while another thread holds the
  lock, and when the lock is free returns with the lock held by the thread and \<open>p\<close>
  current again, changing nothing else.  If nothing happened in between, the runtime is
  back in the state before entry, apart from the log of calls.
\<close>

theorem enable_threads_scope_restores_holder:
  assumes "gil s = Some t" "current s t = Some p"
  shows "\<exists>s1. enable_threads_scope_ctor t s = Inr (Some p, s1) \<and> gil s1 = None \<and>
           enable_threads_scope_ctor t s1 = Inl Fatal \<and>
           (\<forall>s2. gil s2 = None \<and> tstate_at s2 p \<noteq> None \<longrightarrow>
              (\<exists>s3. enable_threads_scope_dtor t (Some p) s2 = Inr s3 \<and>
                 gil s3 = Some t \<and> current s3 t = Some p \<and>
                 initialized s3 = initialized s2 \<and> tstates s3 = tstates s2 \<and>
                 interps s3 = interps s2 \<and> sys_attrs s3 = sys_attrs s2 \<and>
                 stdout s3 = stdout s2 \<and>
                 (\<forall>u. u \<noteq> t \<longrightarrow> current s3 u = current s2 u))) \<and>
           (\<forall>s2 u. gil s2 = Some u \<and> tstate_at s2 p \<noteq> None \<longrightarrow>
              enable_threads_scope_dtor t (Some p) s2 = Inl Blocked) \<and>
           (tstate_at s p \<noteq> None \<longrightarrow>
              (\<exists>s3. enable_threads_scope_dtor t (Some p) s1 = Inr s3 \<and>
                 s3\<lparr>calls := calls s\<rparr> = s))"
proof -
  let ?s1 = "logged t Call_SaveThread (s\<lparr>gil := None, current := (current s)(t := None)\<rparr>)"
  have c: "enable_threads_scope_ctor t s = Inr (Some p, ?s1)"
    using assms by (simp add: enable_threads_scope_ctor_def PyEval_SaveThread_def)
  have again: "enable_threads_scope_ctor t ?s1 = Inl Fatal"
    by (simp add: enable_threads_scope_ctor_def PyEval_SaveThread_def logged_def)
  have upd: "(current s)(t := Some p) = current s"
    using assms(2) by auto
  have round: "\<exists>s3. enable_threads_scope_dtor t (Some p) ?s1 = Inr s3 \<and> s3\<lparr>calls := calls s\<rparr> = s"
    if "tstate_at s p \<noteq> None"
    using that assms
    by (simp add: enable_threads_scope_dtor_def PyEval_RestoreThread_def logged_def
        tstate_at_def upd)
  show ?thesis
    apply (rule exI [of _ ?s1])
    using round
    apply (simp add: c again)
    apply (simp add: enable_threads_scope_dtor_def PyEval_RestoreThread_def logged_def)
    done
qed

theorem enable_threads_scope_restores_holder_witness:
  "gil booted = Some 0 \<and> current booted 0 = Some 1 \<and>
   enable_threads_scope_ctor 0 booted = Inr (Some 1, released) \<and>
   enable_threads_scope_ctor 0 released = Inl Fatal \<and>
   (\<exists>s3. enable_threads_scope_dtor 0 (Some 1) released = Inr s3 \<and>
      gil s3 = Some 0 \<and> current s3 0 = Some 1 \<and> s3\<lparr>calls := calls booted\<rparr> = booted)"
proof -
  have h: "gil booted = Some 0" "current booted 0 = Some 1"
    by (simp_all add: booted_def)
  have l: "tstate_at booted 1 \<noteq> None" "tstate_at released 1 \<noteq> None" "gil released = None"
    by (simp_all add: booted_def released_def tstate_at_def)
  from enable_threads_scope_restores_holder [OF h]
  show ?thesis using h l by (auto simp add: released_is_release)
qed

text \<open>
  Claim C3.  A thread \<open>t\<close> that holds the lock with current thread state \<open>p\<close> enters an
  \<open>enable_threads_scope\<close>.  The constructor frees the lock and hands \<open>p\<close> to the guard,
  whose member \<open>_state\<close> keeps it for the duration of the scope: \<open>p\<close> stays the binding of
  the thread, held on its behalf by the guard while the runtime's own pointer to the
  current thread state is NULL.  The thread state itself is not touched: the table of
  thread states, the interpreters, their namespaces and what they have printed are as
  before, and so are the current thread states of the other threads.  What is given up is
  the permission to run Python code: while the lock is free no thread, the releasing one
  included, can enter \<open>PyRun_SimpleString\<close>.  When the destructor runs, in any later state
  in which the lock is free and \<open>p\<close> is still allocated, \<open>p\<close> is the current thread state of
  \<open>t\<close> again, \<open>t\<close> holds the lock, and \<open>t\<close> can run Python code again.
\<close>

theorem release_keeps_binding:
  assumes "gil s = Some t" "current s t = Some p"
  shows "\<exists>g s1. enable_threads_scope_ctor t s = Inr (g, s1) \<and> g = Some p \<and>
           binding t (Some g) s1 = binding t None s \<and>
           initialized s1 = initialized s \<and> tstates s1 = tstates s \<and>
           interps s1 = interps s \<and> sys_attrs s1 = sys_attrs s \<and> stdout s1 = stdout s \<and>
           (\<forall>u. u \<noteq> t \<longrightarrow> current s1 u = current s u) \<and>
           gil s1 = None \<and> current s1 t = None \<and>
           (\<forall>u code. PyRun_SimpleString u code s1 = Inl Fatal) \<and>
           (\<forall>s2. gil s2 = None \<and> tstate_at s2 p \<noteq> None \<longrightarrow>
              (\<exists>s3. enable_threads_scope_dtor t g s2 = Inr s3 \<and>
                 binding t None s3 = binding t None s \<and> gil s3 = Some t \<and>
                 tstates s3 = tstates s2 \<and>
                 (\<forall>code. \<exists>sc s4. PyRun_SimpleString t code s3 = Inr (sc, s4))))"
proof -
  let ?s1 = "logged t Call_SaveThread (s\<lparr>gil := None, current := (current s)(t := None)\<rparr>)"
  have c: "enable_threads_scope_ctor t s = Inr (Some p, ?s1)"
    using assms by (simp add: enable_threads_scope_ctor_def PyEval_SaveThread_def)
  have no_run: "PyRun_SimpleString u code ?s1 = Inl Fatal" for u code
    by (simp add: PyRun_SimpleString_def logged_def)
  have again: "\<exists>s3. enable_threads_scope_dtor t (Some p) s2 = Inr s3 \<and>
                 binding t None s3 = binding t None s \<and> gil s3 = Some t \<and>
                 tstates s3 = tstates s2 \<and>
                 (\<forall>code. \<exists>sc s4. PyRun_SimpleString t code s3 = Inr (sc, s4))"
    if "gil s2 = None" "tstate_at s2 p \<noteq> None" for s2
    using that assms
    by (auto simp add: enable_threads_scope_dtor_def PyEval_RestoreThread_def
        PyRun_SimpleString_def logged_def tstate_at_def binding_def)
  show ?thesis
    apply (rule exI [of _ "Some p"], rule exI [of _ ?s1])
    using again assms
    apply (simp add: c no_run binding_def)
    apply (simp add: logged_def)
    done
qed

theorem release_keeps_binding_witness:
  "gil booted = Some 0 \<and> current booted 0 = Some 1 \<and>
   (\<exists>s1. enable_threads_scope_ctor 0 booted = Inr (Some 1, s1) \<and>
      binding 0 (Some (Some 1)) s1 = Some 1 \<and> binding 0 None booted = Some 1 \<and>
      tstates s1 = [(1, \<lparr>interp = 1, cleared = False\<rparr>)] \<and> gil s1 = None \<and>
      PyRun_SimpleString 0 [] s1 = Inl Fatal \<and>
      (\<exists>s3. enable_threads_scope_dtor 0 (Some 1) s1 = Inr s3 \<and>
         binding 0 None s3 = Some 1 \<and> gil s3 = Some 0 \<and>
         (\<exists>sc s4. PyRun_SimpleString 0 [] s3 = Inr (sc, s4))))"
proof -
  have h: "gil booted = Some 0" "current booted 0 = Some 1"
    by (simp_all add: booted_def)
  have t: "tstates booted = [(1, \<lparr>interp = 1, cleared = False\<rparr>)]"
    by (simp add: booted_def)
  from release_keeps_binding [OF h]
  obtain g s1 where
    c: "enable_threads_scope_ctor 0 booted = Inr (g, s1)" "g = Some 1" and
    f: "tstates s1 = tstates booted" "gil s1 = None"
       "\<forall>u code. PyRun_SimpleString u code s1 = Inl Fatal" and
    again: "\<forall>s2. gil s2 = None \<and> tstate_at s2 1 \<noteq> None \<longrightarrow>
       (\<exists>s3. enable_threads_scope_dtor 0 g s2 = Inr s3 \<and>
          binding 0 None s3 = binding 0 None booted \<and> gil s3 = Some 0 \<and>
          tstates s3 = tstates s2 \<and>
          (\<forall>code. \<exists>sc s4. PyRun_SimpleString 0 code s3 = Inr (sc, s4)))"
    by blast
  have l: "tstate_at s1 1 \<noteq> None"
    by (simp add: tstate_at_def f(1) t)
  from again [rule_format, of s1] f(2) l
  obtain s3 where
    d: "enable_threads_scope_dtor 0 g s1 = Inr s3" "binding 0 None s3 = binding 0 None booted"
       "gil s3 = Some 0" "\<forall>code. \<exists>sc s4. PyRun_SimpleString 0 code s3 = Inr (sc, s4)"
    by blast
  have b: "binding 0 None booted = Some 1"
    by (simp add: binding_def h)
  show ?thesis
    using h c f t d b by (auto simp add: binding_def)
qed

section \<open>The actions of f and the guards\<close>

text \<open>
  The first three actions of a thread that runs \<open>f\<close> are the constructor of its
  \<open>thread_scope\<close>, its last three the destructor; neither depends on switch requests.
\<close>

lemma f_enters_thread_scope:
  assumes "pc c t = W_new"
  shows "run_sched [(t, sw1), (t, sw2), (t, sw3)] c =
           and_then (thread_scope_ctor t (arg_interp c t) (rt c)) (\<lambda>(g, r).
             Inr (goes t W_run r
                    (c\<lparr>var_state := (var_state c)(t := scope_state g),
                       var_swap := (var_swap c)(t := scope_swap g)\<rparr>)))"
proof (cases "PyThreadState_New t (arg_interp c t) (rt c)")
  case (Inl e)
  with assms show ?thesis
    by (simp add: step_def f_def thread_scope_ctor_def thread_state_ctor_def)
next
  case new: (Inr x)
  obtain ts r1 where x: "x = (ts, r1)" by (cases x)
  show ?thesis
  proof (cases "PyEval_RestoreThread t ts r1")
    case (Inl e)
    with assms new x show ?thesis
      by (simp add: step_def f_def goes_def thread_scope_ctor_def thread_state_ctor_def)
  next
    case restore: (Inr r2)
    show ?thesis
    proof (cases "swap_tstate_scope_ctor t ts r2")
      case (Inl e)
      with assms new x restore show ?thesis
        by (simp add: step_def f_def goes_def thread_scope_ctor_def thread_state_ctor_def)
    next
      case (Inr y)
      obtain sw r3 where "y = (sw, r3)" by (cases y)
      with assms new x restore Inr show ?thesis
        by (simp add: step_def f_def goes_def thread_scope_ctor_def thread_state_ctor_def)
    qed
  qed
qed

lemma f_leaves_thread_scope:
  assumes "pc c t = W_unswap"
  shows "run_sched [(t, sw1), (t, sw2), (t, sw3)] c =
           and_then (thread_scope_dtor t
                       \<lparr>scope_state = var_state c t, scope_swap = var_swap c t\<rparr> (rt c))
             (\<lambda>r. Inr (goes t Done r c))"
proof (cases "swap_tstate_scope_dtor t (var_swap c t) (rt c)")
  case (Inl e)
  with assms show ?thesis
    by (simp add: step_def f_def thread_scope_dtor_def)
next
  case unswap: (Inr r1)
  show ?thesis
  proof (cases "PyThreadState_Clear t (var_state c t) r1")
    case (Inl e)
    with assms unswap show ?thesis
      by (simp add: step_def f_def goes_def thread_scope_dtor_def thread_state_dtor_def)
  next
    case clear: (Inr r2)
    show ?thesis
    proof (cases "PyThreadState_DeleteCurrent t r2")
      case (Inl e)
      with assms unswap clear show ?thesis
        by (simp add: step_def f_def goes_def thread_scope_dtor_def thread_state_dtor_def)
    next
      case (Inr r3)
      with assms unswap clear show ?thesis
        by (simp add: step_def f_def goes_def thread_scope_dtor_def thread_state_dtor_def)
    qed
  qed
qed

section \<open>The threads, one action at a time\<close>

text \<open>Where a thread is tells whose program it runs.\<close>

lemma main_point_is_main:
  assumes "inv_threads m plan r0 c" "\<not> worker_point (pc c t)" "pc c t \<noteq> Absent"
  shows "t = m"
  using assms by (auto simp add: inv_threads_def)

lemma worker_is_not_main:
  assumes "inv_main m plan r0 c" "worker_point (pc c t)"
  shows "t \<noteq> m"
  using assms by (auto simp add: inv_main_def)

lemma live_in_heap:
  assumes "map_of ws p = Some st"
  shows "map_of (ws @ xs) p = Some st"
  using assms by (simp add: map_add_Some_iff)

lemma moved_absent [simp]:
  assumes "pc c t \<noteq> Absent" "q \<noteq> Absent"
  shows "(((pc c)(t := q)) k = Absent) = (pc c k = Absent)"
  using assms by auto

lemma inv_heap_frame:
  assumes "inv_heap r0 c" "tstates (rt c') = tstates (rt c)"
    and "\<forall>u. active (pc c' u) = active (pc c u)"
    and "\<forall>u. active (pc c u) \<longrightarrow> var_state c' u = var_state c u"
    and "\<forall>u. active (pc c u) \<longrightarrow> (pc c' u = W_delete) = (pc c u = W_delete)"
    and "\<forall>u. active (pc c u) \<longrightarrow> arg_interp c' u = arg_interp c u"
  shows "inv_heap r0 c'"
proof -
  from assms(1) obtain ws where ws: "tstates (rt c) = ws @ tstates r0"
    "\<forall>e \<in> set ws. fst e \<notin> fst ` set (tstates r0) \<and>
           (\<exists>t. active (pc c t) \<and> var_state c t = Some (fst e))"
    "\<forall>t. active (pc c t) \<longrightarrow>
           (\<exists>p. var_state c t = Some p \<and>
              map_of ws p = Some \<lparr>interp = arg_interp c t, cleared = (pc c t = W_delete)\<rparr>)"
    "\<forall>t u. active (pc c t) \<and> active (pc c u) \<and> var_state c t = var_state c u \<longrightarrow> t = u"
    unfolding inv_heap_def by blast
  have a: "active (pc c' u) = active (pc c u)" for u
    using assms(3) by blast
  have v: "var_state c' u = var_state c u" if "active (pc c u)" for u
    using assms(4) that by blast
  have d: "(pc c' u = W_delete) = (pc c u = W_delete)" if "active (pc c u)" for u
    using assms(5) that by blast
  have 1: "tstates (rt c') = ws @ tstates r0"
    using ws(1) assms(2) by simp
  have 2: "fst e \<notin> fst ` set (tstates r0) \<and>
           (\<exists>t. active (pc c' t) \<and> var_state c' t = Some (fst e))" if "e \<in> set ws" for e
  proof -
    from ws(2) that obtain t where "fst e \<notin> fst ` set (tstates r0)" "active (pc c t)"
      "var_state c t = Some (fst e)" by blast
    then show ?thesis using a [of t] v [of t] by auto
  qed
  have 3: "\<exists>p. var_state c' t = Some p \<and>
              map_of ws p = Some \<lparr>interp = arg_interp c' t, cleared = (pc c' t = W_delete)\<rparr>"
    if "active (pc c' t)" for t
  proof -
    from that a [of t] have act: "active (pc c t)" by simp
    with ws(3) obtain p where "var_state c t = Some p"
      "map_of ws p = Some \<lparr>interp = arg_interp c t, cleared = (pc c t = W_delete)\<rparr>" by blast
    then show ?thesis using v [OF act] d [OF act] assms(6) act by simp
  qed
  have 4: "t = u" if "active (pc c' t)" "active (pc c' u)" "var_state c' t = var_state c' u"
    for t u
  proof -
    from that a have act: "active (pc c t)" "active (pc c u)" by simp_all
    with that(3) v have "var_state c t = var_state c u" by simp
    with act ws(4) show ?thesis by blast
  qed
  show ?thesis
    unfolding inv_heap_def
    apply (rule exI [of _ ws])
    using 1 2 3 4 by blast
qed

lemma inv_main_frame:
  assumes "inv_main m plan r0 c" "pc c' m = pc c m" "current (rt c') m = current (rt c) m"
    and "var_state c' m = var_state c m" "\<forall>k. pc c k = Done \<longrightarrow> pc c' k = Done"
    and "\<forall>k. (pc c' k = Absent) = (pc c k = Absent)"
  shows "inv_main m plan r0 c'"
  using assms unfolding inv_main_def by auto

lemma inv_out_frame:
  assumes "inv_out r0 c" "stdout (rt c') = stdout (rt c)"
    and "\<forall>u. printed (pc c' u) = printed (pc c u)"
    and "arg_interp c' = arg_interp c" "arg_tname c' = arg_tname c"
  shows "inv_out r0 c'"
  using assms unfolding inv_out_def by auto

lemma inv_threads_frame:
  assumes "inv_threads m plan r0 c" "arg_interp c' = arg_interp c" "arg_tname c' = arg_tname c"
    and "\<forall>u. u \<noteq> m \<longrightarrow> pc c' u = pc c u \<or> (worker_point (pc c u) \<and> worker_point (pc c' u))"
  shows "inv_threads m plan r0 c'"
proof -
  have "pc c' t = Absent \<or>
        (worker_point (pc c' t) \<and>
         (\<exists>a. (t, a, arg_tname c' t) \<in> set plan \<and> arg_value r0 m a = Some (arg_interp c' t)))"
    if "t \<noteq> m" for t
  proof -
    from assms(1) that have old: "pc c t = Absent \<or>
        (worker_point (pc c t) \<and>
         (\<exists>a. (t, a, arg_tname c t) \<in> set plan \<and> arg_value r0 m a = Some (arg_interp c t)))"
      unfolding inv_threads_def by blast
    from assms(4) that have "pc c' t = pc c t \<or> (worker_point (pc c t) \<and> worker_point (pc c' t))"
      by blast
    then show ?thesis
    proof
      assume "pc c' t = pc c t"
      with old assms(2,3) show ?thesis by simp
    next
      assume w: "worker_point (pc c t) \<and> worker_point (pc c' t)"
      then have "pc c t \<noteq> Absent" by auto
      with old w assms(2,3) show ?thesis by simp
    qed
  qed
  then show ?thesis unfolding inv_threads_def by blast
qed

lemma inv_script_frame:
  assumes "inv_script r0 c"
    and "\<forall>u sc. pc c' u = W_script sc \<longrightarrow> pc c u = W_script sc \<and> var_state c' u = var_state c u"
    and "arg_interp c' = arg_interp c" "arg_tname c' = arg_tname c"
  shows "inv_script r0 c'"
  using assms unfolding inv_script_def by auto

lemma active_facts:
  assumes "inv_heap r0 c" "active (pc c t)"
  shows "\<exists>p. var_state c t = Some p \<and>
    tstate_at (rt c) p = Some \<lparr>interp = arg_interp c t, cleared = (pc c t = W_delete)\<rparr>"
proof -
  from assms obtain ws p where "tstates (rt c) = ws @ tstates r0" "var_state c t = Some p"
    "map_of ws p = Some \<lparr>interp = arg_interp c t, cleared = (pc c t = W_delete)\<rparr>"
    unfolding inv_heap_def by blast
  then show ?thesis by (simp add: tstate_at_def live_in_heap)
qed

lemma inv_lock_kept:
  assumes "inv_lock c" "gil (rt c) = Some t" "gil (rt c') = Some t" "holding (pc c' t)"
    "\<forall>u. u \<noteq> t \<longrightarrow> pc c' u = pc c u"
  shows "inv_lock c'"
  using assms unfolding inv_lock_def by metis

lemma inv_cur_others:
  assumes "inv_cur c" "\<forall>u. u \<noteq> t \<longrightarrow> pc c' u = pc c u \<and> current (rt c') u = current (rt c) u \<and>
      var_state c' u = var_state c u \<and> var_swap c' u = var_swap c u"
    and "active (pc c' t) \<and> holding (pc c' t) \<longrightarrow> current (rt c') t = var_state c' t"
    and "pc c' t = W_run \<or> (\<exists>sc. pc c' t = W_script sc) \<or> pc c' t = W_unswap \<longrightarrow>
           var_swap c' t = var_state c' t"
  shows "inv_cur c'"
  using assms unfolding inv_cur_def by metis

lemma holder:
  assumes "inv_lock c" "holding (pc c t)"
  shows "gil (rt c) = Some t"
  using assms unfolding inv_lock_def by blast

lemma not_holder:
  assumes "inv_lock c" "\<not> holding (pc c t)"
  shows "gil (rt c) \<noteq> Some t"
  using assms unfolding inv_lock_def by blast

lemma current_is_own:
  assumes "inv_cur c" "active (pc c t)" "holding (pc c t)"
  shows "current (rt c) t = var_state c t"
  using assms unfolding inv_cur_def by blast

lemma swap_is_own:
  assumes "inv_cur c" "pc c t = W_run \<or> (\<exists>sc. pc c t = W_script sc) \<or> pc c t = W_unswap"
  shows "var_swap c t = var_state c t"
  using assms unfolding inv_cur_def by blast

lemma worker_args:
  assumes "inv_static m plan r0" "inv_threads m plan r0 c" "t \<noteq> m" "pc c t \<noteq> Absent"
  shows "plain_name (arg_tname c t) \<and> arg_interp c t \<in> set (interps r0)"
proof -
  from assms(2-4) obtain a where a: "(t, a, arg_tname c t) \<in> set plan"
    "arg_value r0 m a = Some (arg_interp c t)"
    unfolding inv_threads_def by blast
  from assms(1) a(1) have "plain_name (snd (snd (t, a, arg_tname c t))) \<and>
      (\<exists>i. arg_value r0 m (fst (snd (t, a, arg_tname c t))) = Some i \<and> i \<in> set (interps r0))"
    unfolding inv_static_def by blast
  with a(2) show ?thesis by simp
qed

lemma at_W_swap:
  assumes "inv m plan r0 c" "pc c t = W_swap"
  shows "\<exists>c'. step t sw c = Inr c' \<and> inv m plan r0 c'"
proof -
  from assms have parts: "inv_static m plan r0" "inv_rt r0 c" "inv_lock c" "inv_heap r0 c"
    "inv_cur c" "inv_main m plan r0 c" "inv_threads m plan r0 c" "inv_out r0 c"
    "inv_script r0 c"
    by (simp_all add: inv_def)
  have g: "gil (rt c) = Some t"
    by (rule holder [OF parts(3)]) (simp add: assms(2))
  have cur: "current (rt c) t = var_state c t"
    by (rule current_is_own [OF parts(5)]) (simp_all add: assms(2))
  from worker_is_not_main [OF parts(6), of t] assms(2) have tm: "t \<noteq> m" "m \<noteq> t" by auto
  let ?r = "logged t (Call_ThreadState_Swap (var_state c t))
              ((rt c)\<lparr>current := (current (rt c))(t := var_state c t)\<rparr>)"
  let ?c = "goes t W_run ?r (c\<lparr>var_swap := (var_swap c)(t := current (rt c) t)\<rparr>)"
  have st: "step t sw c = Inr ?c"
    using assms(2) g by (simp add: step_def f_def swap_tstate_scope_ctor_def PyThreadState_Swap_def)
  have "inv_rt r0 ?c"
    using parts(2) by (simp add: inv_rt_def goes_def logged_def)
  moreover have "inv_lock ?c"
    by (rule inv_lock_kept [OF parts(3) g]) (simp_all add: goes_def logged_def g)
  moreover have "inv_heap r0 ?c"
    by (rule inv_heap_frame [OF parts(4)]) (simp_all add: goes_def logged_def assms(2))
  moreover have "inv_cur ?c"
    by (rule inv_cur_others [OF parts(5), of t]) (simp_all add: goes_def logged_def cur)
  moreover have "inv_main m plan r0 ?c"
    by (rule inv_main_frame [OF parts(6)]) (simp_all add: goes_def logged_def tm assms(2))
  moreover have "inv_threads m plan r0 ?c"
    by (rule inv_threads_frame [OF parts(7)]) (simp_all add: goes_def logged_def assms(2))
  moreover have "inv_out r0 ?c"
    by (rule inv_out_frame [OF parts(8)]) (simp_all add: goes_def logged_def assms(2))
  moreover have "inv_script r0 ?c"
    by (rule inv_script_frame [OF parts(9)]) (simp_all add: goes_def logged_def assms(2))
  ultimately have "inv m plan r0 ?c"
    using parts(1) by (simp add: inv_def)
  with st show ?thesis by blast
qed

lemma inv_lock_frame:
  assumes "inv_lock c" "gil (rt c') = gil (rt c)" "\<forall>u. holding (pc c' u) = holding (pc c u)"
  shows "inv_lock c'"
  using assms unfolding inv_lock_def by simp

lemma inv_lock_taken:
  assumes "inv_lock c" "gil (rt c) = None" "gil (rt c') = Some t" "holding (pc c' t)"
    "\<forall>u. u \<noteq> t \<longrightarrow> pc c' u = pc c u"
  shows "inv_lock c'"
  using assms unfolding inv_lock_def by (metis option.distinct(1) option.inject)

lemma inv_lock_freed:
  assumes "inv_lock c" "gil (rt c) = Some t" "gil (rt c') = None" "\<not> holding (pc c' t)"
    "\<forall>u. u \<noteq> t \<longrightarrow> pc c' u = pc c u"
  shows "inv_lock c'"
  using assms unfolding inv_lock_def by (metis option.distinct(1) option.inject)

lemma at_W_unswap:
  assumes "inv m plan r0 c" "pc c t = W_unswap"
  shows "\<exists>c'. step t sw c = Inr c' \<and> inv m plan r0 c'"
proof -
  from assms have parts: "inv_static m plan r0" "inv_rt r0 c" "inv_lock c" "inv_heap r0 c"
    "inv_cur c" "inv_main m plan r0 c" "inv_threads m plan r0 c" "inv_out r0 c"
    "inv_script r0 c"
    by (simp_all add: inv_def)
  have g: "gil (rt c) = Some t"
    by (rule holder [OF parts(3)]) (simp add: assms(2))
  have sw: "var_swap c t = var_state c t"
    by (rule swap_is_own [OF parts(5)]) (simp add: assms(2))
  from worker_is_not_main [OF parts(6), of t] assms(2) have tm: "t \<noteq> m" "m \<noteq> t" by auto
  let ?r = "logged t (Call_ThreadState_Swap (var_swap c t))
              ((rt c)\<lparr>current := (current (rt c))(t := var_swap c t)\<rparr>)"
  let ?c = "goes t W_clear ?r c"
  have st: "step t sw c = Inr ?c"
    using assms(2) g by (simp add: step_def f_def swap_tstate_scope_dtor_def PyThreadState_Swap_def)
  have "inv_rt r0 ?c"
    using parts(2) by (simp add: inv_rt_def goes_def logged_def)
  moreover have "inv_lock ?c"
    by (rule inv_lock_kept [OF parts(3) g]) (simp_all add: goes_def logged_def g)
  moreover have "inv_heap r0 ?c"
    by (rule inv_heap_frame [OF parts(4)]) (simp_all add: goes_def logged_def assms(2))
  moreover have "inv_cur ?c"
    by (rule inv_cur_others [OF parts(5), of t]) (simp_all add: goes_def logged_def sw)
  moreover have "inv_main m plan r0 ?c"
    by (rule inv_main_frame [OF parts(6)]) (simp_all add: goes_def logged_def tm assms(2))
  moreover have "inv_threads m plan r0 ?c"
    by (rule inv_threads_frame [OF parts(7)]) (simp_all add: goes_def logged_def assms(2))
  moreover have "inv_out r0 ?c"
    by (rule inv_out_frame [OF parts(8)]) (simp_all add: goes_def logged_def assms(2))
  moreover have "inv_script r0 ?c"
    by (rule inv_script_frame [OF parts(9)]) (simp_all add: goes_def logged_def assms(2))
  ultimately have "inv m plan r0 ?c"
    using parts(1) by (simp add: inv_def)
  with st show ?thesis by blast
qed

lemma at_W_restore:
  assumes "inv m plan r0 c" "pc c t = W_restore"
  shows "step t sw c = Inl Blocked \<or> (\<exists>c'. step t sw c = Inr c' \<and> inv m plan r0 c')"
proof (cases "gil (rt c) = None")
  case False
  from assms have h: "inv_heap r0 c" by (simp add: inv_def)
  from active_facts [OF h, of t] assms(2) obtain p where
    p: "var_state c t = Some p"
      "tstate_at (rt c) p = Some \<lparr>interp = arg_interp c t, cleared = False\<rparr>" by auto
  with False assms(2) have "step t sw c = Inl Blocked"
    by (auto simp add: step_def f_def PyEval_RestoreThread_def)
  then show ?thesis ..
next
  case True
  from assms have parts: "inv_static m plan r0" "inv_rt r0 c" "inv_lock c" "inv_heap r0 c"
    "inv_cur c" "inv_main m plan r0 c" "inv_threads m plan r0 c" "inv_out r0 c"
    "inv_script r0 c"
    by (simp_all add: inv_def)
  from active_facts [OF parts(4), of t] assms(2) obtain p where
    p: "var_state c t = Some p"
      "tstate_at (rt c) p = Some \<lparr>interp = arg_interp c t, cleared = False\<rparr>" by auto
  from worker_is_not_main [OF parts(6), of t] assms(2) have tm: "t \<noteq> m" "m \<noteq> t" by auto
  let ?r = "logged t (Call_RestoreThread (Some p))
              ((rt c)\<lparr>gil := Some t, current := (current (rt c))(t := Some p)\<rparr>)"
  let ?c = "goes t W_swap ?r c"
  have st: "step t sw c = Inr ?c"
    using assms(2) True p by (auto simp add: step_def f_def PyEval_RestoreThread_def)
  have "inv_rt r0 ?c"
    using parts(2) by (simp add: inv_rt_def goes_def logged_def)
  moreover have "inv_lock ?c"
    by (rule inv_lock_taken [OF parts(3) True, of _ t]) (simp_all add: goes_def logged_def)
  moreover have "inv_heap r0 ?c"
    by (rule inv_heap_frame [OF parts(4)]) (simp_all add: goes_def logged_def assms(2))
  moreover have "inv_cur ?c"
    by (rule inv_cur_others [OF parts(5), of t]) (simp_all add: goes_def logged_def p)
  moreover have "inv_main m plan r0 ?c"
    by (rule inv_main_frame [OF parts(6)]) (simp_all add: goes_def logged_def tm assms(2))
  moreover have "inv_threads m plan r0 ?c"
    by (rule inv_threads_frame [OF parts(7)]) (simp_all add: goes_def logged_def assms(2))
  moreover have "inv_out r0 ?c"
    by (rule inv_out_frame [OF parts(8)]) (simp_all add: goes_def logged_def assms(2))
  moreover have "inv_script r0 ?c"
    by (rule inv_script_frame [OF parts(9)]) (simp_all add: goes_def logged_def assms(2))
  ultimately have "inv m plan r0 ?c"
    using parts(1) by (simp add: inv_def)
  with st show ?thesis by blast
qed

lemma heap_parts:
  assumes "inv_heap r0 c"
  obtains ws where "tstates (rt c) = ws @ tstates r0"
    "\<And>e. e \<in> set ws \<Longrightarrow> fst e \<notin> fst ` set (tstates r0)"
    "\<And>e. e \<in> set ws \<Longrightarrow> \<exists>t. active (pc c t) \<and> var_state c t = Some (fst e)"
    "\<And>t. active (pc c t) \<Longrightarrow> \<exists>p. var_state c t = Some p \<and>
        map_of ws p = Some \<lparr>interp = arg_interp c t, cleared = (pc c t = W_delete)\<rparr>"
    "\<And>t u. active (pc c t) \<Longrightarrow> active (pc c u) \<Longrightarrow> var_state c t = var_state c u \<Longrightarrow> t = u"
proof -
  from assms obtain ws where ws: "tstates (rt c) = ws @ tstates r0"
    "\<forall>e \<in> set ws. fst e \<notin> fst ` set (tstates r0) \<and>
           (\<exists>t. active (pc c t) \<and> var_state c t = Some (fst e))"
    "\<forall>t. active (pc c t) \<longrightarrow>
           (\<exists>p. var_state c t = Some p \<and>
              map_of ws p = Some \<lparr>interp = arg_interp c t, cleared = (pc c t = W_delete)\<rparr>)"
    "\<forall>t u. active (pc c t) \<and> active (pc c u) \<and> var_state c t = var_state c u \<longrightarrow> t = u"
    unfolding inv_heap_def by blast
  show ?thesis
    by (rule that [of ws]) (use ws in blast)+
qed

lemma heap_intro:
  assumes "tstates (rt c) = ws @ tstates r0"
    "\<And>e. e \<in> set ws \<Longrightarrow> fst e \<notin> fst ` set (tstates r0)"
    "\<And>e. e \<in> set ws \<Longrightarrow> \<exists>t. active (pc c t) \<and> var_state c t = Some (fst e)"
    "\<And>t. active (pc c t) \<Longrightarrow> \<exists>p. var_state c t = Some p \<and>
        map_of ws p = Some \<lparr>interp = arg_interp c t, cleared = (pc c t = W_delete)\<rparr>"
    "\<And>t u. active (pc c t) \<Longrightarrow> active (pc c u) \<Longrightarrow> var_state c t = var_state c u \<Longrightarrow> t = u"
  shows "inv_heap r0 c"
  unfolding inv_heap_def
  apply (rule exI [of _ ws])
  using assms by blast

lemma inv_heap_new:
  assumes h: "inv_heap r0 c" and t: "\<not> active (pc c t)"
    and r: "tstates (rt c') = (fresh_ptr (map fst (tstates (rt c))),
                              \<lparr>interp = arg_interp c t, cleared = False\<rparr>) # tstates (rt c)"
    and pcs: "pc c' = (pc c)(t := W_restore)"
    and vs: "var_state c' = (var_state c)(t := Some (fresh_ptr (map fst (tstates (rt c)))))"
    and ai: "arg_interp c' = arg_interp c"
  shows "inv_heap r0 c'"
proof -
  let ?p = "fresh_ptr (map fst (tstates (rt c)))"
  obtain ws where ws: "tstates (rt c) = ws @ tstates r0"
    "\<And>e. e \<in> set ws \<Longrightarrow> fst e \<notin> fst ` set (tstates r0)"
    "\<And>e. e \<in> set ws \<Longrightarrow> \<exists>t. active (pc c t) \<and> var_state c t = Some (fst e)"
    "\<And>t. active (pc c t) \<Longrightarrow> \<exists>p. var_state c t = Some p \<and>
        map_of ws p = Some \<lparr>interp = arg_interp c t, cleared = (pc c t = W_delete)\<rparr>"
    "\<And>t u. active (pc c t) \<Longrightarrow> active (pc c u) \<Longrightarrow> var_state c t = var_state c u \<Longrightarrow> t = u"
    by (rule heap_parts [OF h]) blast
  from fresh_tstate [of "rt c"] ws(1) have fresh: "?p \<notin> fst ` set ws" "?p \<notin> fst ` set (tstates r0)"
    by auto
  have other: "pc c' u = pc c u \<and> var_state c' u = var_state c u" if "u \<noteq> t" for u
    using that pcs vs by simp
  have own: "pc c' t = W_restore" "var_state c' t = Some ?p"
    using pcs vs by simp_all
  have old_ptr: "q \<noteq> ?p" if "map_of ws q = Some st" for q st
    using that fresh(1) by (metis fst_conv image_eqI map_of_SomeD)
  show ?thesis
  proof (rule heap_intro [of _ "(?p, \<lparr>interp = arg_interp c t, cleared = False\<rparr>) # ws"])
    show "tstates (rt c') = ((?p, \<lparr>interp = arg_interp c t, cleared = False\<rparr>) # ws) @ tstates r0"
      using r ws(1) by simp
  next
    fix e assume "e \<in> set ((?p, \<lparr>interp = arg_interp c t, cleared = False\<rparr>) # ws)"
    then have "e = (?p, \<lparr>interp = arg_interp c t, cleared = False\<rparr>) \<or> e \<in> set ws"
      by simp
    then show "fst e \<notin> fst ` set (tstates r0)"
    proof
      assume "e = (?p, \<lparr>interp = arg_interp c t, cleared = False\<rparr>)"
      then have "fst e = ?p" by simp
      with fresh(2) show ?thesis by simp
    next
      assume "e \<in> set ws"
      then show ?thesis by (rule ws(2))
    qed
  next
    fix e assume e: "e \<in> set ((?p, \<lparr>interp = arg_interp c t, cleared = False\<rparr>) # ws)"
    show "\<exists>u. active (pc c' u) \<and> var_state c' u = Some (fst e)"
    proof (cases "e \<in> set ws")
      case True
      from ws(3) [OF True] obtain u where u: "active (pc c u)" "var_state c u = Some (fst e)"
        by blast
      with t have "u \<noteq> t" by auto
      from other [OF this] u have "active (pc c' u) \<and> var_state c' u = Some (fst e)"
        by simp
      then show ?thesis ..
    next
      case False
      with e have "fst e = ?p" by auto
      with own have "active (pc c' t) \<and> var_state c' t = Some (fst e)" by simp
      then show ?thesis ..
    qed
  next
    fix u assume a: "active (pc c' u)"
    show "\<exists>p. var_state c' u = Some p \<and>
            map_of ((?p, \<lparr>interp = arg_interp c t, cleared = False\<rparr>) # ws) p
              = Some \<lparr>interp = arg_interp c' u, cleared = (pc c' u = W_delete)\<rparr>"
    proof (cases "u = t")
      case True
      then show ?thesis using own ai by simp
    next
      case False
      with a other [of u] have "active (pc c u)" by simp
      from ws(4) [OF this] obtain q where q: "var_state c u = Some q"
        "map_of ws q = Some \<lparr>interp = arg_interp c u, cleared = (pc c u = W_delete)\<rparr>"
        by blast
      from old_ptr [OF q(2)] q other [OF False] ai show ?thesis by simp
    qed
  next
    fix u v assume a: "active (pc c' u)" "active (pc c' v)" "var_state c' u = var_state c' v"
    have differ: "var_state c' w \<noteq> Some ?p" if "w \<noteq> t" "active (pc c' w)" for w
    proof -
      from that other [of w] have "active (pc c w)" by simp
      from ws(4) [OF this] obtain q where q: "var_state c w = Some q"
        "map_of ws q = Some \<lparr>interp = arg_interp c w, cleared = (pc c w = W_delete)\<rparr>"
        by blast
      from old_ptr [OF q(2)] q(1) other [OF that(1)] show ?thesis by simp
    qed
    show "u = v"
    proof (rule ccontr)
      assume ne: "u \<noteq> v"
      show False
      proof (cases "u = t")
        case True
        with ne have "v \<noteq> t" by simp
        from differ [OF this a(2)] a(3) True own(2) show False by simp
      next
        case uf: False
        show False
        proof (cases "v = t")
          case True
          from differ [OF uf a(1)] a(3) True own(2) show False by simp
        next
          case False
          from other [OF uf] other [OF False] a
          have "active (pc c u)" "active (pc c v)" "var_state c u = var_state c v"
            by simp_all
          from ws(5) [OF this] ne show False by simp
        qed
      qed
    qed
  qed
qed

lemma inv_heap_clear:
  assumes h: "inv_heap r0 c" and pct: "pc c t = W_clear" and vp: "var_state c t = Some p"
    and r: "tstates (rt c') =
              map (\<lambda>e. if fst e = p then (p, (snd e)\<lparr>cleared := True\<rparr>) else e) (tstates (rt c))"
    and pcs: "pc c' = (pc c)(t := W_delete)"
    and vs: "var_state c' = var_state c"
    and ai: "arg_interp c' = arg_interp c"
  shows "inv_heap r0 c'"
proof -
  let ?mark = "\<lambda>e. if fst e = p then (p, (snd e)\<lparr>cleared := True\<rparr>) else e"
  obtain ws where ws: "tstates (rt c) = ws @ tstates r0"
    "\<And>e. e \<in> set ws \<Longrightarrow> fst e \<notin> fst ` set (tstates r0)"
    "\<And>e. e \<in> set ws \<Longrightarrow> \<exists>t. active (pc c t) \<and> var_state c t = Some (fst e)"
    "\<And>t. active (pc c t) \<Longrightarrow> \<exists>p. var_state c t = Some p \<and>
        map_of ws p = Some \<lparr>interp = arg_interp c t, cleared = (pc c t = W_delete)\<rparr>"
    "\<And>t u. active (pc c t) \<Longrightarrow> active (pc c u) \<Longrightarrow> var_state c t = var_state c u \<Longrightarrow> t = u"
    by (rule heap_parts [OF h]) blast
  have act: "active (pc c t)" using pct by simp
  from ws(4) [OF act] vp pct
  have mine: "map_of ws p = Some \<lparr>interp = arg_interp c t, cleared = False\<rparr>" by simp
  then have "(p, \<lparr>interp = arg_interp c t, cleared = False\<rparr>) \<in> set ws"
    by (rule map_of_SomeD)
  from ws(2) [OF this] have away: "p \<notin> fst ` set (tstates r0)" by simp
  have same_act: "active (pc c' u) = active (pc c u)" for u
    using pcs pct by simp
  have other: "pc c' u = pc c u" if "u \<noteq> t" for u
    using that pcs by simp
  have keys: "fst (?mark e) = fst e" for e :: "tstate_ptr \<times> tstate"
    by simp
  show ?thesis
  proof (rule heap_intro [of _ "map ?mark ws"])
    show "tstates (rt c') = map ?mark ws @ tstates r0"
      using r ws(1) mark_absent [OF away] by simp
  next
    fix e' assume "e' \<in> set (map ?mark ws)"
    then have "e' \<in> ?mark ` set ws" by simp
    then obtain e where e: "e \<in> set ws" "e' = ?mark e" by (rule imageE) blast
    with keys [of e] have k: "fst e' = fst e" by simp
    from ws(2) [OF e(1)] k show "fst e' \<notin> fst ` set (tstates r0)" by simp
    from ws(3) [OF e(1)] obtain u where "active (pc c u)" "var_state c u = Some (fst e)"
      by blast
    with same_act [of u] vs k have "active (pc c' u) \<and> var_state c' u = Some (fst e')"
      by simp
    then show "\<exists>u. active (pc c' u) \<and> var_state c' u = Some (fst e')" ..
  next
    fix u assume a: "active (pc c' u)"
    show "\<exists>q. var_state c' u = Some q \<and>
            map_of (map ?mark ws) q
              = Some \<lparr>interp = arg_interp c' u, cleared = (pc c' u = W_delete)\<rparr>"
    proof (cases "u = t")
      case True
      have "map_of (map ?mark ws) p = Some \<lparr>interp = arg_interp c t, cleared = True\<rparr>"
        by (simp add: map_of_mark mine)
      with True vs vp pcs ai show ?thesis by simp
    next
      case False
      from a same_act [of u] have au: "active (pc c u)" by simp
      from ws(4) [OF au] obtain q where q: "var_state c u = Some q"
        "map_of ws q = Some \<lparr>interp = arg_interp c u, cleared = (pc c u = W_delete)\<rparr>"
        by blast
      have "q \<noteq> p"
      proof
        assume "q = p"
        with q(1) vp have "var_state c u = var_state c t" by simp
        from ws(5) [OF au act this] False show False by simp
      qed
      then have "map_of (map ?mark ws) q = map_of ws q"
        by (simp add: map_of_mark)
      with q other [OF False] vs ai show ?thesis by simp
    qed
  next
    fix u v assume "active (pc c' u)" "active (pc c' v)" "var_state c' u = var_state c' v"
    with same_act vs have "active (pc c u)" "active (pc c v)" "var_state c u = var_state c v"
      by simp_all
    then show "u = v" by (rule ws(5))
  qed
qed

lemma inv_heap_delete:
  assumes h: "inv_heap r0 c" and pct: "pc c t = W_delete" and vp: "var_state c t = Some p"
    and r: "tstates (rt c') = filter (\<lambda>e. fst e \<noteq> p) (tstates (rt c))"
    and pcs: "pc c' = (pc c)(t := Done)"
    and vs: "var_state c' = var_state c"
    and ai: "arg_interp c' = arg_interp c"
  shows "inv_heap r0 c'"
proof -
  obtain ws where ws: "tstates (rt c) = ws @ tstates r0"
    "\<And>e. e \<in> set ws \<Longrightarrow> fst e \<notin> fst ` set (tstates r0)"
    "\<And>e. e \<in> set ws \<Longrightarrow> \<exists>t. active (pc c t) \<and> var_state c t = Some (fst e)"
    "\<And>t. active (pc c t) \<Longrightarrow> \<exists>p. var_state c t = Some p \<and>
        map_of ws p = Some \<lparr>interp = arg_interp c t, cleared = (pc c t = W_delete)\<rparr>"
    "\<And>t u. active (pc c t) \<Longrightarrow> active (pc c u) \<Longrightarrow> var_state c t = var_state c u \<Longrightarrow> t = u"
    by (rule heap_parts [OF h]) blast
  have act: "active (pc c t)" using pct by simp
  from ws(4) [OF act] vp pct
  have mine: "map_of ws p = Some \<lparr>interp = arg_interp c t, cleared = True\<rparr>" by simp
  then have "(p, \<lparr>interp = arg_interp c t, cleared = True\<rparr>) \<in> set ws"
    by (rule map_of_SomeD)
  from ws(2) [OF this] have away: "p \<notin> fst ` set (tstates r0)" by simp
  have other: "pc c' u = pc c u" if "u \<noteq> t" for u
    using that pcs by simp
  have gone: "\<not> active (pc c' t)"
    using pcs by simp
  show ?thesis
  proof (rule heap_intro [of _ "filter (\<lambda>e. fst e \<noteq> p) ws"])
    show "tstates (rt c') = filter (\<lambda>e. fst e \<noteq> p) ws @ tstates r0"
      using r ws(1) remove_absent [OF away] by simp
  next
    fix e assume "e \<in> set (filter (\<lambda>e. fst e \<noteq> p) ws)"
    then have e: "e \<in> set ws" "fst e \<noteq> p" by simp_all
    from ws(2) [OF e(1)] show "fst e \<notin> fst ` set (tstates r0)" .
    from ws(3) [OF e(1)] obtain u where u: "active (pc c u)" "var_state c u = Some (fst e)"
      by blast
    with e(2) vp have "u \<noteq> t" by auto
    from other [OF this] u vs have "active (pc c' u) \<and> var_state c' u = Some (fst e)"
      by simp
    then show "\<exists>u. active (pc c' u) \<and> var_state c' u = Some (fst e)" ..
  next
    fix u assume a: "active (pc c' u)"
    with gone have ut: "u \<noteq> t" by auto
    from a other [OF ut] have au: "active (pc c u)" by simp
    from ws(4) [OF au] obtain q where q: "var_state c u = Some q"
      "map_of ws q = Some \<lparr>interp = arg_interp c u, cleared = (pc c u = W_delete)\<rparr>"
      by blast
    have "q \<noteq> p"
    proof
      assume "q = p"
      with q(1) vp have "var_state c u = var_state c t" by simp
      from ws(5) [OF au act this] ut show False by simp
    qed
    then have "map_of (filter (\<lambda>e. fst e \<noteq> p) ws) q = map_of ws q"
      by (simp add: map_of_remove)
    with q other [OF ut] vs ai
    show "\<exists>q. var_state c' u = Some q \<and>
            map_of (filter (\<lambda>e. fst e \<noteq> p) ws) q
              = Some \<lparr>interp = arg_interp c' u, cleared = (pc c' u = W_delete)\<rparr>"
      by simp
  next
    fix u v assume a: "active (pc c' u)" "active (pc c' v)" "var_state c' u = var_state c' v"
    from a gone have "u \<noteq> t" "v \<noteq> t" by auto
    with a other vs have "active (pc c u)" "active (pc c v)" "var_state c u = var_state c v"
      by simp_all
    then show "u = v" by (rule ws(5))
  qed
qed

lemma at_W_new:
  assumes "inv m plan r0 c" "pc c t = W_new"
  shows "\<exists>c'. step t sw c = Inr c' \<and> inv m plan r0 c'"
proof -
  from assms have parts: "inv_static m plan r0" "inv_rt r0 c" "inv_lock c" "inv_heap r0 c"
    "inv_cur c" "inv_main m plan r0 c" "inv_threads m plan r0 c" "inv_out r0 c"
    "inv_script r0 c"
    by (simp_all add: inv_def)
  from worker_is_not_main [OF parts(6), of t] assms(2) have tm: "t \<noteq> m" "m \<noteq> t" by auto
  from worker_args [OF parts(1,7) tm(1)] assms(2) have "arg_interp c t \<in> set (interps r0)"
    by simp
  with parts(2) have i: "arg_interp c t \<in> set (interps (rt c))"
    by (simp add: inv_rt_def)
  let ?p = "fresh_ptr (map fst (tstates (rt c)))"
  let ?r = "logged t (Call_ThreadState_New (arg_interp c t))
              ((rt c)\<lparr>tstates := (?p, \<lparr>interp = arg_interp c t, cleared = False\<rparr>)
                                   # tstates (rt c)\<rparr>)"
  let ?c = "goes t W_restore ?r (c\<lparr>var_state := (var_state c)(t := Some ?p)\<rparr>)"
  have st: "step t sw c = Inr ?c"
    using assms(2) i by (simp add: step_def f_def PyThreadState_New_def Let_def)
  have "inv_rt r0 ?c"
    using parts(2) by (simp add: inv_rt_def goes_def logged_def)
  moreover have "inv_lock ?c"
    by (rule inv_lock_frame [OF parts(3)]) (simp_all add: goes_def logged_def assms(2))
  moreover have "inv_heap r0 ?c"
    by (rule inv_heap_new [OF parts(4), of t]) (simp_all add: goes_def logged_def assms(2))
  moreover have "inv_cur ?c"
    by (rule inv_cur_others [OF parts(5), of t]) (simp_all add: goes_def logged_def)
  moreover have "inv_main m plan r0 ?c"
    by (rule inv_main_frame [OF parts(6)]) (simp_all add: goes_def logged_def tm assms(2))
  moreover have "inv_threads m plan r0 ?c"
    by (rule inv_threads_frame [OF parts(7)]) (simp_all add: goes_def logged_def assms(2))
  moreover have "inv_out r0 ?c"
    by (rule inv_out_frame [OF parts(8)]) (simp_all add: goes_def logged_def assms(2))
  moreover have "inv_script r0 ?c"
    by (rule inv_script_frame [OF parts(9)]) (simp_all add: goes_def logged_def assms(2))
  ultimately have "inv m plan r0 ?c"
    using parts(1) by (simp add: inv_def)
  with st show ?thesis by blast
qed

lemma at_W_clear:
  assumes "inv m plan r0 c" "pc c t = W_clear"
  shows "\<exists>c'. step t sw c = Inr c' \<and> inv m plan r0 c'"
proof -
  from assms have parts: "inv_static m plan r0" "inv_rt r0 c" "inv_lock c" "inv_heap r0 c"
    "inv_cur c" "inv_main m plan r0 c" "inv_threads m plan r0 c" "inv_out r0 c"
    "inv_script r0 c"
    by (simp_all add: inv_def)
  have g: "gil (rt c) = Some t"
    by (rule holder [OF parts(3)]) (simp add: assms(2))
  have cur: "current (rt c) t = var_state c t"
    by (rule current_is_own [OF parts(5)]) (simp_all add: assms(2))
  from active_facts [OF parts(4), of t] assms(2) obtain p where
    p: "var_state c t = Some p"
      "tstate_at (rt c) p = Some \<lparr>interp = arg_interp c t, cleared = False\<rparr>" by auto
  from worker_is_not_main [OF parts(6), of t] assms(2) have tm: "t \<noteq> m" "m \<noteq> t" by auto
  let ?r = "logged t (Call_ThreadState_Clear (Some p))
              ((rt c)\<lparr>tstates :=
                 map (\<lambda>e. if fst e = p then (p, (snd e)\<lparr>cleared := True\<rparr>) else e)
                   (tstates (rt c))\<rparr>)"
  let ?c = "goes t W_delete ?r c"
  have st: "step t sw c = Inr ?c"
    using assms(2) g p by (simp add: step_def f_def PyThreadState_Clear_def)
  have "inv_rt r0 ?c"
    using parts(2) by (simp add: inv_rt_def goes_def logged_def)
  moreover have "inv_lock ?c"
    by (rule inv_lock_kept [OF parts(3) g]) (simp_all add: goes_def logged_def g)
  moreover have "inv_heap r0 ?c"
    by (rule inv_heap_clear [OF parts(4) assms(2) p(1)]) (simp_all add: goes_def logged_def)
  moreover have "inv_cur ?c"
    by (rule inv_cur_others [OF parts(5), of t]) (simp_all add: goes_def logged_def cur)
  moreover have "inv_main m plan r0 ?c"
    by (rule inv_main_frame [OF parts(6)]) (simp_all add: goes_def logged_def tm assms(2))
  moreover have "inv_threads m plan r0 ?c"
    by (rule inv_threads_frame [OF parts(7)]) (simp_all add: goes_def logged_def assms(2))
  moreover have "inv_out r0 ?c"
    by (rule inv_out_frame [OF parts(8)]) (simp_all add: goes_def logged_def assms(2))
  moreover have "inv_script r0 ?c"
    by (rule inv_script_frame [OF parts(9)]) (simp_all add: goes_def logged_def assms(2))
  ultimately have "inv m plan r0 ?c"
    using parts(1) by (simp add: inv_def)
  with st show ?thesis by blast
qed

lemma at_W_delete:
  assumes "inv m plan r0 c" "pc c t = W_delete"
  shows "\<exists>c'. step t sw c = Inr c' \<and> inv m plan r0 c'"
proof -
  from assms have parts: "inv_static m plan r0" "inv_rt r0 c" "inv_lock c" "inv_heap r0 c"
    "inv_cur c" "inv_main m plan r0 c" "inv_threads m plan r0 c" "inv_out r0 c"
    "inv_script r0 c"
    by (simp_all add: inv_def)
  have g: "gil (rt c) = Some t"
    by (rule holder [OF parts(3)]) (simp add: assms(2))
  have cur: "current (rt c) t = var_state c t"
    by (rule current_is_own [OF parts(5)]) (simp_all add: assms(2))
  from active_facts [OF parts(4), of t] assms(2) obtain p where
    p: "var_state c t = Some p"
      "tstate_at (rt c) p = Some \<lparr>interp = arg_interp c t, cleared = True\<rparr>" by auto
  from worker_is_not_main [OF parts(6), of t] assms(2) have tm: "t \<noteq> m" "m \<noteq> t" by auto
  let ?r = "logged t Call_ThreadState_DeleteCurrent
              ((rt c)\<lparr>gil := None, current := (current (rt c))(t := None),
                      tstates := filter (\<lambda>e. fst e \<noteq> p) (tstates (rt c))\<rparr>)"
  let ?c = "goes t Done ?r c"
  have st: "step t sw c = Inr ?c"
    using assms(2) g p cur by (simp add: step_def f_def PyThreadState_DeleteCurrent_def)
  have "inv_rt r0 ?c"
    using parts(2) by (simp add: inv_rt_def goes_def logged_def)
  moreover have "inv_lock ?c"
    by (rule inv_lock_freed [OF parts(3) g, of _]) (simp_all add: goes_def logged_def)
  moreover have "inv_heap r0 ?c"
    by (rule inv_heap_delete [OF parts(4) assms(2) p(1)]) (simp_all add: goes_def logged_def)
  moreover have "inv_cur ?c"
    by (rule inv_cur_others [OF parts(5), of t]) (simp_all add: goes_def logged_def)
  moreover have "inv_main m plan r0 ?c"
    by (rule inv_main_frame [OF parts(6)]) (simp_all add: goes_def logged_def tm assms(2))
  moreover have "inv_threads m plan r0 ?c"
    by (rule inv_threads_frame [OF parts(7)]) (simp_all add: goes_def logged_def assms(2))
  moreover have "inv_out r0 ?c"
    by (rule inv_out_frame [OF parts(8)]) (simp_all add: goes_def logged_def assms(2))
  moreover have "inv_script r0 ?c"
    by (rule inv_script_frame [OF parts(9)]) (simp_all add: goes_def logged_def assms(2))
  ultimately have "inv m plan r0 ?c"
    using parts(1) by (simp add: inv_def)
  with st show ?thesis by blast
qed

lemma main_tstate_live:
  assumes "inv_static m plan r0" "inv_heap r0 c" "current r0 m = Some p0"
  shows "tstate_at (rt c) p0 \<noteq> None"
proof -
  from assms(1,3) have "map_of (tstates r0) p0 \<noteq> None"
    by (auto simp add: inv_static_def)
  moreover from assms(2) obtain ws where "tstates (rt c) = ws @ tstates r0"
    unfolding inv_heap_def by blast
  ultimately show ?thesis
    by (auto simp add: tstate_at_def map_add_Some_iff)
qed

lemma f_code_plain:
  assumes "plain_name tname"
  shows "f_code tname = Some [Print (Format (tname @ '': sys.xxx='')
                                (GetattrSys ''xxx'' (PyStr ''attribute not set'')))]"
  using assms by (simp add: f_code_def)

lemma f_code_compiled:
  "compile [Print (Format (tname @ '': sys.xxx='')
              (GetattrSys ''xxx'' (PyStr ''attribute not set'')))]
   = [Op_getattr_sys ''xxx'' (PyStr ''attribute not set''),
      Op_format (tname @ '': sys.xxx=''), Op_print]"
  by (simp add: compile_def)

lemma script_facts:
  assumes "inv m plan r0 c" "pc c t = W_script sc"
  shows "\<exists>p fr. var_state c t = Some p \<and> var_swap c t = Some p \<and> t \<noteq> m \<and>
           tstate_at (rt c) p = Some \<lparr>interp = arg_interp c t, cleared = False\<rparr> \<and>
           fr \<in> set (f_frames (arg_tname c t) (sys_attrs r0 (arg_interp c t))) \<and>
           (sc = Running p (fst fr) (snd fr) \<or> sc = Waiting p (fst fr) (snd fr))"
proof -
  from assms have parts: "inv_heap r0 c" "inv_cur c" "inv_main m plan r0 c" "inv_script r0 c"
    by (simp_all add: inv_def)
  from parts(4) assms(2) obtain p fr where p: "var_state c t = Some p"
    "fr \<in> set (f_frames (arg_tname c t) (sys_attrs r0 (arg_interp c t)))"
    "sc = Running p (fst fr) (snd fr) \<or> sc = Waiting p (fst fr) (snd fr)"
    unfolding inv_script_def by blast
  from active_facts [OF parts(1), of t] assms(2) p(1)
  have l: "tstate_at (rt c) p = Some \<lparr>interp = arg_interp c t, cleared = False\<rparr>" by auto
  have s: "var_swap c t = var_state c t"
    by (rule swap_is_own [OF parts(2)]) (simp add: assms(2))
  from worker_is_not_main [OF parts(3), of t] assms(2) have "t \<noteq> m" by auto
  with p l s show ?thesis by auto
qed

lemma inv_script_at:
  assumes "inv_script r0 c" "pc c' = (pc c)(t := q)" "var_state c' = var_state c"
    and "arg_interp c' = arg_interp c" "arg_tname c' = arg_tname c"
    and "\<forall>sc. q = W_script sc \<longrightarrow>
           (\<exists>p. var_state c t = Some p \<and>
              (\<exists>fr \<in> set (f_frames (arg_tname c t) (sys_attrs r0 (arg_interp c t))).
                 sc = Running p (fst fr) (snd fr) \<or> sc = Waiting p (fst fr) (snd fr)))"
  shows "inv_script r0 c'"
  using assms unfolding inv_script_def by auto

lemma at_W_run:
  assumes "inv m plan r0 c" "pc c t = W_run"
  shows "\<exists>c'. step t sw c = Inr c' \<and> inv m plan r0 c'"
proof -
  from assms have parts: "inv_static m plan r0" "inv_rt r0 c" "inv_lock c" "inv_heap r0 c"
    "inv_cur c" "inv_main m plan r0 c" "inv_threads m plan r0 c" "inv_out r0 c"
    "inv_script r0 c"
    by (simp_all add: inv_def)
  have g: "gil (rt c) = Some t"
    by (rule holder [OF parts(3)]) (simp add: assms(2))
  have cur: "current (rt c) t = var_state c t"
    by (rule current_is_own [OF parts(5)]) (simp_all add: assms(2))
  from active_facts [OF parts(4), of t] assms(2) obtain p where
    p: "var_state c t = Some p"
      "tstate_at (rt c) p = Some \<lparr>interp = arg_interp c t, cleared = False\<rparr>" by auto
  from worker_is_not_main [OF parts(6), of t] assms(2) have tm: "t \<noteq> m" "m \<noteq> t" by auto
  from worker_args [OF parts(1,7) tm(1)] assms(2) have pl: "plain_name (arg_tname c t)"
    by simp
  let ?code = "[Print (Format (arg_tname c t @ '': sys.xxx='')
                  (GetattrSys ''xxx'' (PyStr ''attribute not set'')))]"
  let ?ops = "[Op_getattr_sys ''xxx'' (PyStr ''attribute not set''),
               Op_format (arg_tname c t @ '': sys.xxx=''), Op_print]"
  let ?r = "logged t (Call_RunSimpleString ?code) (rt c)"
  let ?c = "goes t (W_script (Running p ?ops [])) ?r c"
  have st: "step t sw c = Inr ?c"
    using assms(2) g cur p
    by (simp add: step_def f_def f_code_plain [OF pl] PyRun_SimpleString_def f_code_compiled)
  have "inv_rt r0 ?c"
    using parts(2) by (simp add: inv_rt_def goes_def logged_def)
  moreover have "inv_lock ?c"
    by (rule inv_lock_kept [OF parts(3) g]) (simp_all add: goes_def logged_def g)
  moreover have "inv_heap r0 ?c"
    by (rule inv_heap_frame [OF parts(4)]) (simp_all add: goes_def logged_def assms(2))
  moreover have "inv_cur ?c"
    by (rule inv_cur_others [OF parts(5), of t])
      (simp_all add: goes_def logged_def cur swap_is_own [OF parts(5)] assms(2))
  moreover have "inv_main m plan r0 ?c"
    by (rule inv_main_frame [OF parts(6)]) (simp_all add: goes_def logged_def tm assms(2))
  moreover have "inv_threads m plan r0 ?c"
    by (rule inv_threads_frame [OF parts(7)]) (simp_all add: goes_def logged_def assms(2))
  moreover have "inv_out r0 ?c"
    by (rule inv_out_frame [OF parts(8)]) (simp_all add: goes_def logged_def assms(2))
  moreover have "inv_script r0 ?c"
    by (rule inv_script_at [OF parts(9), of _ t "W_script (Running p ?ops [])"])
      (simp_all add: goes_def logged_def p f_frames_def)
  ultimately have "inv m plan r0 ?c"
    using parts(1) by (simp add: inv_def)
  with st show ?thesis by blast
qed

lemma at_script_waiting:
  assumes "inv m plan r0 c" "pc c t = W_script (Waiting p ops stk)"
  shows "step t sw c = Inl Blocked \<or> (\<exists>c'. step t sw c = Inr c' \<and> inv m plan r0 c')"
proof -
  from script_facts [OF assms] obtain fr where
    f: "var_state c t = Some p" "var_swap c t = Some p" "t \<noteq> m"
       "tstate_at (rt c) p = Some \<lparr>interp = arg_interp c t, cleared = False\<rparr>"
       "fr \<in> set (f_frames (arg_tname c t) (sys_attrs r0 (arg_interp c t)))"
       "ops = fst fr" "stk = snd fr"
    by auto
  show ?thesis
  proof (cases "gil (rt c) = None")
    case False
    with assms(2) f(4) have "step t sw c = Inl Blocked"
      by (simp add: step_def f_def PyRun_continue_def)
    then show ?thesis ..
  next
    case True
    from assms have parts: "inv_static m plan r0" "inv_rt r0 c" "inv_lock c" "inv_heap r0 c"
      "inv_cur c" "inv_main m plan r0 c" "inv_threads m plan r0 c" "inv_out r0 c"
      "inv_script r0 c"
      by (simp_all add: inv_def)
    have tm: "t \<noteq> m" "m \<noteq> t" using f(3) by auto
    let ?r = "(rt c)\<lparr>gil := Some t, current := (current (rt c))(t := Some p)\<rparr>"
    let ?c = "goes t (W_script (Running p ops stk)) ?r c"
    have st: "step t sw c = Inr ?c"
      using assms(2) f(4) True by (simp add: step_def f_def PyRun_continue_def)
    have "inv_rt r0 ?c"
      using parts(2) by (simp add: inv_rt_def goes_def)
    moreover have "inv_lock ?c"
      by (rule inv_lock_taken [OF parts(3) True, of _ t]) (simp_all add: goes_def)
    moreover have "inv_heap r0 ?c"
      by (rule inv_heap_frame [OF parts(4)]) (simp_all add: goes_def assms(2))
    moreover have "inv_cur ?c"
      by (rule inv_cur_others [OF parts(5), of t]) (simp_all add: goes_def f)
    moreover have "inv_main m plan r0 ?c"
      by (rule inv_main_frame [OF parts(6)]) (simp_all add: goes_def tm assms(2))
    moreover have "inv_threads m plan r0 ?c"
      by (rule inv_threads_frame [OF parts(7)]) (simp_all add: goes_def assms(2))
    moreover have "inv_out r0 ?c"
      by (rule inv_out_frame [OF parts(8)]) (simp_all add: goes_def assms(2))
    moreover have "inv_script r0 ?c"
      by (rule inv_script_at [OF parts(9), of _ t "W_script (Running p ops stk)"])
        (use f in \<open>auto simp add: goes_def\<close>)
    ultimately have "inv m plan r0 ?c"
      using parts(1) by (simp add: inv_def)
    with st show ?thesis by blast
  qed
qed

lemma at_script_switch:
  assumes "inv m plan r0 c" "pc c t = W_script (Running p ops stk)"
  shows "\<exists>c'. step t True c = Inr c' \<and> inv m plan r0 c'"
proof -
  from script_facts [OF assms] obtain fr where
    f: "var_state c t = Some p" "var_swap c t = Some p" "t \<noteq> m"
       "tstate_at (rt c) p = Some \<lparr>interp = arg_interp c t, cleared = False\<rparr>"
       "fr \<in> set (f_frames (arg_tname c t) (sys_attrs r0 (arg_interp c t)))"
       "ops = fst fr" "stk = snd fr"
    by auto
  from assms have parts: "inv_static m plan r0" "inv_rt r0 c" "inv_lock c" "inv_heap r0 c"
    "inv_cur c" "inv_main m plan r0 c" "inv_threads m plan r0 c" "inv_out r0 c"
    "inv_script r0 c"
    by (simp_all add: inv_def)
  have tm: "t \<noteq> m" "m \<noteq> t" using f(3) by auto
  have g: "gil (rt c) = Some t"
    by (rule holder [OF parts(3)]) (simp add: assms(2))
  have cur: "current (rt c) t = Some p"
    using current_is_own [OF parts(5), of t] assms(2) f(1) by simp
  let ?r = "(rt c)\<lparr>gil := None, current := (current (rt c))(t := None)\<rparr>"
  let ?c = "goes t (W_script (Waiting p ops stk)) ?r c"
  have st: "step t True c = Inr ?c"
    using assms(2) f(4) g cur by (simp add: step_def f_def PyRun_continue_def)
  have "inv_rt r0 ?c"
    using parts(2) by (simp add: inv_rt_def goes_def)
  moreover have "inv_lock ?c"
    by (rule inv_lock_freed [OF parts(3) g]) (simp_all add: goes_def)
  moreover have "inv_heap r0 ?c"
    by (rule inv_heap_frame [OF parts(4)]) (simp_all add: goes_def assms(2))
  moreover have "inv_cur ?c"
    by (rule inv_cur_others [OF parts(5), of t]) (simp_all add: goes_def f)
  moreover have "inv_main m plan r0 ?c"
    by (rule inv_main_frame [OF parts(6)]) (simp_all add: goes_def tm assms(2))
  moreover have "inv_threads m plan r0 ?c"
    by (rule inv_threads_frame [OF parts(7)]) (simp_all add: goes_def assms(2))
  moreover have "inv_out r0 ?c"
    by (rule inv_out_frame [OF parts(8)]) (simp_all add: goes_def assms(2))
  moreover have "inv_script r0 ?c"
    by (rule inv_script_at [OF parts(9), of _ t "W_script (Waiting p ops stk)"])
      (use f in \<open>auto simp add: goes_def\<close>)
  ultimately have "inv m plan r0 ?c"
    using parts(1) by (simp add: inv_def)
  with st show ?thesis by blast
qed

text \<open>An action of a script that leaves the runtime as it is.\<close>

lemma script_goes_on:
  assumes "inv m plan r0 c" "pc c t = W_script (Running p ops stk)"
    and "holding q" "active q" "q \<noteq> W_delete" "printed q = (ops = [])"
    and "q = W_unswap \<or>
         (\<exists>fr \<in> set (f_frames (arg_tname c t) (sys_attrs r0 (arg_interp c t))).
            q = W_script (Running p (fst fr) (snd fr)))"
  shows "inv m plan r0 (goes t q (rt c) c)"
proof -
  from script_facts [OF assms(1,2)] have
    f: "var_state c t = Some p" "var_swap c t = Some p" "t \<noteq> m"
    by auto
  from assms(1) have parts: "inv_static m plan r0" "inv_rt r0 c" "inv_lock c" "inv_heap r0 c"
    "inv_cur c" "inv_main m plan r0 c" "inv_threads m plan r0 c" "inv_out r0 c"
    "inv_script r0 c"
    by (simp_all add: inv_def)
  have tm: "t \<noteq> m" "m \<noteq> t" using f(3) by auto
  have g: "gil (rt c) = Some t"
    by (rule holder [OF parts(3)]) (simp add: assms(2))
  have cur: "current (rt c) t = Some p"
    using current_is_own [OF parts(5), of t] assms(2) f(1) by simp
  have wq: "worker_point q" "q \<noteq> Absent" "q \<noteq> Done"
    using assms(4) by (cases q; simp)+
  let ?c = "goes t q (rt c) c"
  have "inv_rt r0 ?c"
    using parts(2) by (simp add: inv_rt_def goes_def)
  moreover have "inv_lock ?c"
    by (rule inv_lock_kept [OF parts(3) g]) (simp_all add: goes_def g assms(3))
  moreover have "inv_heap r0 ?c"
    by (rule inv_heap_frame [OF parts(4)]) (simp_all add: goes_def assms(2,4,5))
  moreover have "inv_cur ?c"
    by (rule inv_cur_others [OF parts(5), of t]) (simp_all add: goes_def f cur)
  moreover have "inv_main m plan r0 ?c"
    by (rule inv_main_frame [OF parts(6)]) (simp_all add: goes_def tm assms(2) wq)
  moreover have "inv_threads m plan r0 ?c"
    by (rule inv_threads_frame [OF parts(7)]) (simp_all add: goes_def assms(2) wq)
  moreover have "inv_out r0 ?c"
    by (rule inv_out_frame [OF parts(8)]) (simp_all add: goes_def assms(2,6))
  moreover have "inv_script r0 ?c"
    by (rule inv_script_at [OF parts(9), of _ t q])
      (use f assms(7) in \<open>auto simp add: goes_def\<close>)
  ultimately show ?thesis
    using parts(1) by (simp add: inv_def)
qed

lemma at_script_exec:
  assumes "inv m plan r0 c" "pc c t = W_script (Running p ops stk)"
  shows "\<exists>c'. step t False c = Inr c' \<and> inv m plan r0 c'"
proof -
  let ?n = "arg_tname c t"
  let ?i = "arg_interp c t"
  let ?v = "case map_of (sys_attrs r0 ?i) ''xxx'' of
              None \<Rightarrow> PyStr ''attribute not set'' | Some v \<Rightarrow> v"
  from script_facts [OF assms] obtain fr where
    f: "var_state c t = Some p" "var_swap c t = Some p" "t \<noteq> m"
       "tstate_at (rt c) p = Some \<lparr>interp = ?i, cleared = False\<rparr>"
       "fr \<in> set (f_frames ?n (sys_attrs r0 ?i))"
       "ops = fst fr" "stk = snd fr"
    by auto
  from assms(1) have parts: "inv_static m plan r0" "inv_rt r0 c" "inv_lock c" "inv_heap r0 c"
    "inv_cur c" "inv_main m plan r0 c" "inv_threads m plan r0 c" "inv_out r0 c"
    "inv_script r0 c"
    by (simp_all add: inv_def)
  have tm: "t \<noteq> m" "m \<noteq> t" using f(3) by auto
  have g: "gil (rt c) = Some t"
    by (rule holder [OF parts(3)]) (simp add: assms(2))
  have cur: "current (rt c) t = Some p"
    using current_is_own [OF parts(5), of t] assms(2) f(1) by simp
  have ns: "sys_attrs (rt c) = sys_attrs r0"
    using parts(2) by (simp add: inv_rt_def)
  from f(5,6,7) have
    "(ops = [Op_getattr_sys ''xxx'' (PyStr ''attribute not set''),
             Op_format (?n @ '': sys.xxx=''), Op_print] \<and> stk = []) \<or>
     (ops = [Op_format (?n @ '': sys.xxx=''), Op_print] \<and> stk = [?v]) \<or>
     (ops = [Op_print] \<and> stk = [PyStr (f_prints ?n (sys_attrs r0 ?i))]) \<or>
     (ops = [] \<and> stk = [])"
    by (auto simp add: f_frames_def)
  then show ?thesis
  proof (elim disjE conjE)
    assume o: "ops = [Op_getattr_sys ''xxx'' (PyStr ''attribute not set''),
                      Op_format (?n @ '': sys.xxx=''), Op_print]" "stk = []"
    let ?q = "W_script (Running p [Op_format (?n @ '': sys.xxx=''), Op_print] [?v])"
    have "step t False c = Inr (goes t ?q (rt c) c)"
      using assms(2) g cur f(4) o ns by (simp add: step_def f_def PyRun_continue_def)
    moreover have "inv m plan r0 (goes t ?q (rt c) c)"
      by (rule script_goes_on [OF assms]) (simp_all add: o f_frames_def)
    ultimately show ?thesis by blast
  next
    assume o: "ops = [Op_format (?n @ '': sys.xxx=''), Op_print]" "stk = [?v]"
    let ?q = "W_script (Running p [Op_print] [PyStr (f_prints ?n (sys_attrs r0 ?i))])"
    have "step t False c = Inr (goes t ?q (rt c) c)"
      using assms(2) g cur f(4) o ns
      by (simp add: step_def f_def PyRun_continue_def f_prints_def)
    moreover have "inv m plan r0 (goes t ?q (rt c) c)"
      by (rule script_goes_on [OF assms]) (simp_all add: o f_frames_def)
    ultimately show ?thesis by blast
  next
    assume o: "ops = []" "stk = []"
    have "step t False c = Inr (goes t W_unswap (rt c) c)"
      using assms(2) g cur f(4) o by (simp add: step_def f_def PyRun_continue_def)
    moreover have "inv m plan r0 (goes t W_unswap (rt c) c)"
      by (rule script_goes_on [OF assms]) (simp_all add: o)
    ultimately show ?thesis by blast
  next
    assume o: "ops = [Op_print]" "stk = [PyStr (f_prints ?n (sys_attrs r0 ?i))]"
    let ?r = "(rt c)\<lparr>stdout := stdout (rt c) @ [(?i, f_prints ?n (sys_attrs r0 ?i))]\<rparr>"
    let ?q = "W_script (Running p [] [])"
    let ?c = "goes t ?q ?r c"
    have st: "step t False c = Inr ?c"
      using assms(2) g cur f(4) o by (simp add: step_def f_def PyRun_continue_def)
    have "inv_rt r0 ?c"
      using parts(2) by (simp add: inv_rt_def goes_def)
    moreover have "inv_lock ?c"
      by (rule inv_lock_kept [OF parts(3) g]) (simp_all add: goes_def g)
    moreover have "inv_heap r0 ?c"
      by (rule inv_heap_frame [OF parts(4)]) (simp_all add: goes_def assms(2))
    moreover have "inv_cur ?c"
      by (rule inv_cur_others [OF parts(5), of t]) (simp_all add: goes_def f cur)
    moreover have "inv_main m plan r0 ?c"
      by (rule inv_main_frame [OF parts(6)]) (simp_all add: goes_def tm assms(2))
    moreover have "inv_threads m plan r0 ?c"
      by (rule inv_threads_frame [OF parts(7)]) (simp_all add: goes_def assms(2))
    moreover have "inv_script r0 ?c"
      by (rule inv_script_at [OF parts(9), of _ t ?q])
        (simp_all add: goes_def f f_frames_def)
    moreover have "inv_out r0 ?c"
    proof -
      from parts(8) obtain order where od: "distinct order" "set order = {u. printed (pc c u)}"
        "stdout (rt c) =
           stdout r0 @
           map (\<lambda>u. (arg_interp c u, f_prints (arg_tname c u) (sys_attrs r0 (arg_interp c u))))
             order"
        unfolding inv_out_def by blast
      from od(2) assms(2) o(1) have "t \<notin> set order" by simp
      with od(1) have 1: "distinct (order @ [t])" by simp
      have 2: "set (order @ [t]) = {u. printed (pc ?c u)}"
        using od(2) by (auto simp add: goes_def)
      have 3: "stdout (rt ?c) =
           stdout r0 @
           map (\<lambda>u. (arg_interp ?c u,
                      f_prints (arg_tname ?c u) (sys_attrs r0 (arg_interp ?c u))))
             (order @ [t])"
        using od(3) by (simp add: goes_def)
      from 1 2 3 show ?thesis unfolding inv_out_def by blast
    qed
    ultimately have "inv m plan r0 ?c"
      using parts(1) by (simp add: inv_def)
    with st show ?thesis by blast
  qed
qed

lemma at_W_script:
  assumes "inv m plan r0 c" "pc c t = W_script sc"
  shows "step t sw c = Inl Blocked \<or> (\<exists>c'. step t sw c = Inr c' \<and> inv m plan r0 c')"
proof -
  from script_facts [OF assms] obtain p fr where
    "sc = Running p (fst fr) (snd fr) \<or> sc = Waiting p (fst fr) (snd fr)" by blast
  then show ?thesis
  proof
    assume "sc = Waiting p (fst fr) (snd fr)"
    with assms(2) have "pc c t = W_script (Waiting p (fst fr) (snd fr))" by simp
    from at_script_waiting [OF assms(1) this] show ?thesis .
  next
    assume "sc = Running p (fst fr) (snd fr)"
    with assms(2) have r: "pc c t = W_script (Running p (fst fr) (snd fr))" by simp
    show ?thesis
    proof (cases sw)
      case True
      with at_script_switch [OF assms(1) r] show ?thesis by simp
    next
      case False
      with at_script_exec [OF assms(1) r] show ?thesis by simp
    qed
  qed
qed

text \<open>main reads the thread states of \<open>r0\<close> as they were: the threads touch only their own.\<close>

lemma old_tstate:
  assumes "inv_heap r0 c" "map_of (tstates r0) q = Some st"
  shows "tstate_at (rt c) q = Some st"
proof -
  from assms(1) obtain ws where ws: "tstates (rt c) = ws @ tstates r0"
    "\<forall>e \<in> set ws. fst e \<notin> fst ` set (tstates r0)"
    unfolding inv_heap_def by blast
  from assms(2) have "q \<in> fst ` set (tstates r0)"
    by (metis map_of_eq_None_iff option.distinct(1))
  have "q \<notin> fst ` set ws"
  proof
    assume "q \<in> fst ` set ws"
    then obtain e where "e \<in> set ws" "fst e = q" by auto
    with ws(2) have "q \<notin> fst ` set (tstates r0)" by blast
    with \<open>q \<in> fst ` set (tstates r0)\<close> show False by simp
  qed
  then have "map_of ws q = None" by (simp add: map_of_eq_None_iff)
  with ws(1) assms(2) show ?thesis
    by (simp add: tstate_at_def map_add_def)
qed

lemma eval_arg_ok:
  assumes "inv_heap r0 c" "gil (rt c) = Some m" "current (rt c) m = current r0 m"
    and "arg_value r0 m a = Some i"
  shows "\<exists>r. eval_arg m a (rt c) = Inr (i, r) \<and> initialized r = initialized (rt c) \<and>
           gil r = gil (rt c) \<and> current r = current (rt c) \<and> tstates r = tstates (rt c) \<and>
           interps r = interps (rt c) \<and> sys_attrs r = sys_attrs (rt c) \<and>
           stdout r = stdout (rt c)"
proof (cases a)
  case (Interp_of ts)
  with assms(4) obtain q st where q: "ts = Some q" "map_of (tstates r0) q = Some st"
    "interp st = i"
    by (auto simp add: arg_value_def split: option.splits)
  from old_tstate [OF assms(1) q(2)] have "tstate_at (rt c) q = Some st" .
  with Interp_of q show ?thesis
    by (simp add: eval_arg_def sub_interpreter_interp_def deref_interp_def)
next
  case Interp_current
  with assms(4) obtain q st where q: "current r0 m = Some q" "map_of (tstates r0) q = Some st"
    "interp st = i"
    by (auto simp add: arg_value_def split: option.splits)
  from old_tstate [OF assms(1) q(2)] have "tstate_at (rt c) q = Some st" .
  with Interp_current q assms(2,3) show ?thesis
    by (simp add: eval_arg_def sub_interpreter_current_def thread_state_current_def
        PyThreadState_Get_def deref_interp_def logged_def tstate_at_def)
qed

lemma at_Spawn_Nil:
  assumes "inv m plan r0 c" "pc c t = Spawn [] ks"
  shows "\<exists>c'. step t sw c = Inr c' \<and> inv m plan r0 c'"
proof -
  from assms have parts: "inv_static m plan r0" "inv_rt r0 c" "inv_lock c" "inv_heap r0 c"
    "inv_cur c" "inv_main m plan r0 c" "inv_threads m plan r0 c" "inv_out r0 c"
    "inv_script r0 c"
    by (simp_all add: inv_def)
  have tm: "t = m"
    by (rule main_point_is_main [OF parts(7)]) (simp_all add: assms(2))
  from parts(1) obtain p0 where p0: "current r0 m = Some p0"
    by (auto simp add: inv_static_def)
  from parts(6) assms(2) tm have k: "ks = map fst plan" and cur: "current (rt c) m = Some p0"
    and there: "\<forall>d \<in> set plan. pc c (fst d) \<noteq> Absent"
    by (auto simp add: inv_main_def p0)
  have g: "gil (rt c) = Some m"
    by (rule holder [OF parts(3)]) (use assms(2) tm in simp)
  let ?r = "logged m Call_SaveThread
              ((rt c)\<lparr>gil := None, current := (current (rt c))(m := None)\<rparr>)"
  let ?c = "goes m (Join ks) ?r (c\<lparr>var_state := (var_state c)(m := Some p0)\<rparr>)"
  have st: "step t sw c = Inr ?c"
    using assms(2) g cur tm
    by (simp add: step_def main_body_def enable_threads_scope_ctor_def PyEval_SaveThread_def)
  have pm: "pc c m = Spawn [] ks"
    using assms(2) tm by simp
  have "inv_rt r0 ?c"
    using parts(2) by (simp add: inv_rt_def goes_def logged_def)
  moreover have "inv_lock ?c"
    by (rule inv_lock_freed [OF parts(3) g]) (simp_all add: goes_def logged_def)
  moreover have "inv_heap r0 ?c"
    by (rule inv_heap_frame [OF parts(4)]) (simp_all add: goes_def logged_def pm)
  moreover have "inv_cur ?c"
    by (rule inv_cur_others [OF parts(5), of m]) (simp_all add: goes_def logged_def)
  moreover have "inv_main m plan r0 ?c"
  proof -
    have "\<forall>k \<in> set ks. pc ?c k \<noteq> Absent"
      using there k by (auto simp add: goes_def)
    moreover have "pc ?c m = Join ks" "map fst plan = [] @ ks" "var_state ?c m = current r0 m"
      "\<forall>k \<in> set []. pc ?c k = Done"
      using k by (simp_all add: goes_def p0)
    ultimately show ?thesis unfolding inv_main_def by blast
  qed
  moreover have "inv_threads m plan r0 ?c"
    by (rule inv_threads_frame [OF parts(7)]) (simp_all add: goes_def logged_def)
  moreover have "inv_out r0 ?c"
    by (rule inv_out_frame [OF parts(8)]) (simp_all add: goes_def logged_def pm)
  moreover have "inv_script r0 ?c"
    by (rule inv_script_frame [OF parts(9)]) (simp_all add: goes_def logged_def pm)
  ultimately have "inv m plan r0 ?c"
    using parts(1) by (simp add: inv_def)
  with st show ?thesis by blast
qed

lemma at_Join_Cons:
  assumes "inv m plan r0 c" "pc c t = Join (k # ks)"
  shows "step t sw c = Inl Blocked \<or> (\<exists>c'. step t sw c = Inr c' \<and> inv m plan r0 c')"
proof -
  from assms have parts: "inv_static m plan r0" "inv_rt r0 c" "inv_lock c" "inv_heap r0 c"
    "inv_cur c" "inv_main m plan r0 c" "inv_threads m plan r0 c" "inv_out r0 c"
    "inv_script r0 c"
    by (simp_all add: inv_def)
  have tm: "t = m"
    by (rule main_point_is_main [OF parts(7)]) (simp_all add: assms(2))
  with assms(2) have pm: "pc c m = Join (k # ks)" by simp
  with parts(6) obtain ds where ds: "map fst plan = ds @ k # ks" "\<forall>d \<in> set ds. pc c d = Done"
    "\<forall>d \<in> set (k # ks). pc c d \<noteq> Absent" "var_state c m = current r0 m"
    by (auto simp add: inv_main_def)
  from ds(3) have ka: "pc c k \<noteq> Absent" by simp
  show ?thesis
  proof (cases "pc c k = Done")
    case False
    with assms(2) ka have "step t sw c = Inl Blocked"
      by (simp add: step_def main_body_def)
    then show ?thesis ..
  next
    case True
    from True pm have km: "k \<noteq> m" by auto
    let ?c = "goes m (Join ks) (rt c) c"
    have st: "step t sw c = Inr ?c"
      using assms(2) True tm by (simp add: step_def main_body_def)
    have "inv_rt r0 ?c"
      using parts(2) by (simp add: inv_rt_def goes_def)
    moreover have "inv_lock ?c"
      by (rule inv_lock_frame [OF parts(3)]) (simp_all add: goes_def pm)
    moreover have "inv_heap r0 ?c"
      by (rule inv_heap_frame [OF parts(4)]) (simp_all add: goes_def pm)
    moreover have "inv_cur ?c"
      by (rule inv_cur_others [OF parts(5), of m]) (simp_all add: goes_def)
    moreover have "inv_main m plan r0 ?c"
    proof -
      have "\<forall>d \<in> set (ds @ [k]). pc ?c d = Done"
      proof
        fix d assume "d \<in> set (ds @ [k])"
        with ds(2) True have d: "pc c d = Done" by auto
        with pm have "d \<noteq> m" by auto
        with d show "pc ?c d = Done" by (simp add: goes_def)
      qed
      moreover have "map fst plan = (ds @ [k]) @ ks" using ds(1) by simp
      moreover have "pc ?c m = Join ks" "var_state ?c m = current r0 m"
        using ds(4) by (simp_all add: goes_def)
      moreover have "\<forall>d \<in> set ks. pc ?c d \<noteq> Absent"
        using ds(3) by (auto simp add: goes_def)
      ultimately show ?thesis unfolding inv_main_def by blast
    qed
    moreover have "inv_threads m plan r0 ?c"
      by (rule inv_threads_frame [OF parts(7)]) (simp_all add: goes_def)
    moreover have "inv_out r0 ?c"
      by (rule inv_out_frame [OF parts(8)]) (simp_all add: goes_def pm)
    moreover have "inv_script r0 ?c"
      by (rule inv_script_frame [OF parts(9)]) (simp_all add: goes_def pm)
    ultimately have "inv m plan r0 ?c"
      using parts(1) by (simp add: inv_def)
    with st show ?thesis by blast
  qed
qed

lemma at_Join_Nil:
  assumes "inv m plan r0 c" "pc c t = Join []"
  shows "step t sw c = Inl Blocked \<or> (\<exists>c'. step t sw c = Inr c' \<and> inv m plan r0 c')"
proof -
  from assms have parts: "inv_static m plan r0" "inv_rt r0 c" "inv_lock c" "inv_heap r0 c"
    "inv_cur c" "inv_main m plan r0 c" "inv_threads m plan r0 c" "inv_out r0 c"
    "inv_script r0 c"
    by (simp_all add: inv_def)
  have tm: "t = m"
    by (rule main_point_is_main [OF parts(7)]) (simp_all add: assms(2))
  with assms(2) have pm: "pc c m = Join []" by simp
  from parts(1) obtain p0 where p0: "current r0 m = Some p0"
    by (auto simp add: inv_static_def)
  from pm parts(6) have ds: "\<forall>d \<in> set (map fst plan). pc c d = Done" "var_state c m = Some p0"
    by (auto simp add: inv_main_def p0)
  have live: "tstate_at (rt c) p0 \<noteq> None"
    by (rule main_tstate_live [OF parts(1,4) p0])
  show ?thesis
  proof (cases "gil (rt c) = None")
    case False
    with pm tm ds(2) live have "step t sw c = Inl Blocked"
      by (auto simp add: step_def main_body_def enable_threads_scope_dtor_def
          PyEval_RestoreThread_def)
    then show ?thesis ..
  next
    case True
    let ?r = "logged m (Call_RestoreThread (Some p0))
                ((rt c)\<lparr>gil := Some m, current := (current (rt c))(m := Some p0)\<rparr>)"
    let ?c = "goes m Finished ?r c"
    have st: "step t sw c = Inr ?c"
      using pm tm ds(2) live True
      by (auto simp add: step_def main_body_def enable_threads_scope_dtor_def
          PyEval_RestoreThread_def)
    have "inv_rt r0 ?c"
      using parts(2) by (simp add: inv_rt_def goes_def logged_def)
    moreover have "inv_lock ?c"
      by (rule inv_lock_taken [OF parts(3) True, of _ m]) (simp_all add: goes_def logged_def)
    moreover have "inv_heap r0 ?c"
      by (rule inv_heap_frame [OF parts(4)]) (simp_all add: goes_def logged_def pm)
    moreover have "inv_cur ?c"
      by (rule inv_cur_others [OF parts(5), of m]) (simp_all add: goes_def logged_def)
    moreover have "inv_main m plan r0 ?c"
    proof -
      have "\<forall>d \<in> fst ` set plan. pc ?c d = Done"
      proof
        fix d assume "d \<in> fst ` set plan"
        then have "d \<in> set (map fst plan)" by simp
        with ds(1) have d: "pc c d = Done" by blast
        with pm have "d \<noteq> m" by auto
        with d show "pc ?c d = Done" by (simp add: goes_def)
      qed
      moreover have "pc ?c m = Finished" "current (rt ?c) m = current r0 m"
        by (simp_all add: goes_def logged_def p0)
      ultimately show ?thesis unfolding inv_main_def by blast
    qed
    moreover have "inv_threads m plan r0 ?c"
      by (rule inv_threads_frame [OF parts(7)]) (simp_all add: goes_def logged_def)
    moreover have "inv_out r0 ?c"
      by (rule inv_out_frame [OF parts(8)]) (simp_all add: goes_def logged_def pm)
    moreover have "inv_script r0 ?c"
      by (rule inv_script_frame [OF parts(9)]) (simp_all add: goes_def logged_def pm)
    ultimately have "inv m plan r0 ?c"
      using parts(1) by (simp add: inv_def)
    with st show ?thesis by blast
  qed
qed

lemma at_Spawn_Cons:
  assumes "inv m plan r0 c" "pc c t = Spawn ((k, a, n) # ws) ks"
  shows "\<exists>c'. step t sw c = Inr c' \<and> inv m plan r0 c'"
proof -
  from assms have parts: "inv_static m plan r0" "inv_rt r0 c" "inv_lock c" "inv_heap r0 c"
    "inv_cur c" "inv_main m plan r0 c" "inv_threads m plan r0 c" "inv_out r0 c"
    "inv_script r0 c"
    by (simp_all add: inv_def)
  have tm: "t = m"
    by (rule main_point_is_main [OF parts(7)]) (simp_all add: assms(2))
  with assms(2) have pm: "pc c m = Spawn ((k, a, n) # ws) ks" by simp
  with parts(6) obtain ds where ds: "plan = ds @ (k, a, n) # ws" "ks = map fst plan"
    "\<forall>d \<in> set ds. pc c (fst d) \<noteq> Absent" "\<forall>w \<in> set ((k, a, n) # ws). pc c (fst w) = Absent"
    "current (rt c) m = current r0 m"
    by (auto simp add: inv_main_def)
  from ds(4) have ka: "pc c k = Absent" by simp
  with pm have km: "k \<noteq> m" "m \<noteq> k" by auto
  have inplan: "(k, a, n) \<in> set plan" using ds(1) by simp
  with parts(1) have "plain_name (snd (snd (k, a, n))) \<and>
      (\<exists>i. arg_value r0 m (fst (snd (k, a, n))) = Some i \<and> i \<in> set (interps r0))"
    unfolding inv_static_def by blast
  then obtain i where i: "arg_value r0 m a = Some i" by auto
  from parts(1) ds(1) have dist: "distinct (map fst (ds @ (k, a, n) # ws))"
    and mnot: "m \<notin> fst ` set plan"
    by (simp_all add: inv_static_def)
  have g: "gil (rt c) = Some m"
    by (rule holder [OF parts(3)]) (simp add: pm)
  from eval_arg_ok [OF parts(4) g ds(5) i] obtain r where
    r: "eval_arg m a (rt c) = Inr (i, r)" "initialized r = initialized (rt c)"
       "gil r = gil (rt c)" "current r = current (rt c)" "tstates r = tstates (rt c)"
       "interps r = interps (rt c)" "sys_attrs r = sys_attrs (rt c)" "stdout r = stdout (rt c)"
    by blast
  let ?c = "goes m (Spawn ws ks) r
              (c\<lparr>pc := (pc c)(k := W_new), arg_interp := (arg_interp c)(k := i),
                 arg_tname := (arg_tname c)(k := n)\<rparr>)"
  have st: "step t sw c = Inr ?c"
    using assms(2) tm ka r(1) by (simp add: step_def main_body_def)
  have "inv_rt r0 ?c"
    using parts(2) r by (simp add: inv_rt_def goes_def)
  moreover have "inv_lock ?c"
    by (rule inv_lock_frame [OF parts(3)]) (simp_all add: goes_def r ka pm)
  moreover have "inv_heap r0 ?c"
    by (rule inv_heap_frame [OF parts(4)]) (auto simp add: goes_def r ka pm)
  moreover have "inv_cur ?c"
    unfolding inv_cur_def
  proof (intro allI)
    fix u
    from parts(5) have old: "(active (pc c u) \<and> holding (pc c u) \<longrightarrow>
         current (rt c) u = var_state c u) \<and>
        (pc c u = W_run \<or> (\<exists>sc. pc c u = W_script sc) \<or> pc c u = W_unswap \<longrightarrow>
           var_swap c u = var_state c u)"
      unfolding inv_cur_def by blast
    show "(active (pc ?c u) \<and> holding (pc ?c u) \<longrightarrow> current (rt ?c) u = var_state ?c u) \<and>
        (pc ?c u = W_run \<or> (\<exists>sc. pc ?c u = W_script sc) \<or> pc ?c u = W_unswap \<longrightarrow>
           var_swap ?c u = var_state ?c u)"
    proof (cases "u = k \<or> u = m")
      case True
      then show ?thesis by (auto simp add: goes_def)
    next
      case False
      with old show ?thesis by (simp add: goes_def r)
    qed
  qed
  moreover have "inv_main m plan r0 ?c"
  proof -
    have 1: "pc ?c m = Spawn ws (map fst plan)" "plan = (ds @ [(k, a, n)]) @ ws"
      "current (rt ?c) m = current r0 m"
      using ds(1,2,5) by (simp_all add: goes_def r)
    have 2: "\<forall>d \<in> set (ds @ [(k, a, n)]). pc ?c (fst d) \<noteq> Absent"
      using ds(3) by (auto simp add: goes_def)
    have 3: "\<forall>w \<in> set ws. pc ?c (fst w) = Absent"
    proof
      fix w assume w: "w \<in> set ws"
      with dist have "fst w \<noteq> k" by force
      moreover from w ds(1) mnot have "fst w \<noteq> m" by force
      moreover from w ds(4) have "pc c (fst w) = Absent" by simp
      ultimately show "pc ?c (fst w) = Absent" by (simp add: goes_def)
    qed
    from 1 2 3 show ?thesis unfolding inv_main_def by blast
  qed
  moreover have "inv_threads m plan r0 ?c"
    unfolding inv_threads_def
  proof (intro allI impI)
    fix u assume um: "u \<noteq> m"
    show "pc ?c u = Absent \<or>
          (worker_point (pc ?c u) \<and>
           (\<exists>b. (u, b, arg_tname ?c u) \<in> set plan \<and> arg_value r0 m b = Some (arg_interp ?c u)))"
    proof (cases "u = k")
      case True
      with inplan i km show ?thesis by (auto simp add: goes_def)
    next
      case False
      from parts(7) um have "pc c u = Absent \<or>
          (worker_point (pc c u) \<and>
           (\<exists>b. (u, b, arg_tname c u) \<in> set plan \<and> arg_value r0 m b = Some (arg_interp c u)))"
        unfolding inv_threads_def by blast
      with False um show ?thesis by (simp add: goes_def)
    qed
  qed
  moreover have "inv_out r0 ?c"
  proof -
    from parts(8) obtain order where od: "distinct order" "set order = {u. printed (pc c u)}"
      "stdout (rt c) =
         stdout r0 @
         map (\<lambda>u. (arg_interp c u, f_prints (arg_tname c u) (sys_attrs r0 (arg_interp c u))))
           order"
      unfolding inv_out_def by blast
    have same: "printed (pc ?c u) = printed (pc c u)" for u
      using ka pm by (simp add: goes_def)
    from od(2) ka have "k \<notin> set order" by simp
    then have eq: "map (\<lambda>u. (arg_interp ?c u,
                    f_prints (arg_tname ?c u) (sys_attrs r0 (arg_interp ?c u)))) order
             = map (\<lambda>u. (arg_interp c u,
                    f_prints (arg_tname c u) (sys_attrs r0 (arg_interp c u)))) order"
      by (intro map_cong) (auto simp add: goes_def)
    have s1: "stdout (rt ?c) = stdout (rt c)"
      by (simp add: goes_def r)
    have 3: "stdout (rt ?c) =
         stdout r0 @
         map (\<lambda>u. (arg_interp ?c u,
                    f_prints (arg_tname ?c u) (sys_attrs r0 (arg_interp ?c u)))) order"
      unfolding s1 od(3) eq by (rule refl)
    from od(2) same have 2: "set order = {u. printed (pc ?c u)}" by simp
    from od(1) 2 3 show ?thesis unfolding inv_out_def by blast
  qed
  moreover have "inv_script r0 ?c"
    unfolding inv_script_def
  proof (intro allI impI)
    fix u sc assume sc: "pc ?c u = W_script sc"
    then have u: "u \<noteq> k" "u \<noteq> m" by (auto simp add: goes_def split: if_splits)
    with sc have "pc c u = W_script sc" by (simp add: goes_def)
    with parts(9) have "\<exists>p. var_state c u = Some p \<and>
           (\<exists>fr \<in> set (f_frames (arg_tname c u) (sys_attrs r0 (arg_interp c u))).
              sc = Running p (fst fr) (snd fr) \<or> sc = Waiting p (fst fr) (snd fr))"
      unfolding inv_script_def by blast
    with u show "\<exists>p. var_state ?c u = Some p \<and>
           (\<exists>fr \<in> set (f_frames (arg_tname ?c u) (sys_attrs r0 (arg_interp ?c u))).
              sc = Running p (fst fr) (snd fr) \<or> sc = Waiting p (fst fr) (snd fr))"
      by (simp add: goes_def)
  qed
  ultimately have "inv m plan r0 ?c"
    using parts(1) by (simp add: inv_def)
  with st show ?thesis by blast
qed

lemma inv_step:
  assumes "inv m plan r0 c"
  shows "step t sw c = Inl Blocked \<or> (\<exists>c'. step t sw c = Inr c' \<and> inv m plan r0 c')"
proof (cases "pc c t")
  case Absent
  then show ?thesis by (simp add: step_def main_body_def)
next
  case M_run
  from assms have "inv_threads m plan r0 c" "inv_main m plan r0 c" by (simp_all add: inv_def)
  with main_point_is_main [of m plan r0 c t] M_run have False
    by (auto simp add: inv_main_def)
  then show ?thesis ..
next
  case (M_script sc)
  from assms have "inv_threads m plan r0 c" "inv_main m plan r0 c" by (simp_all add: inv_def)
  with main_point_is_main [of m plan r0 c t] M_script have False
    by (auto simp add: inv_main_def)
  then show ?thesis ..
next
  case (Spawn ws ks)
  show ?thesis
  proof (cases ws)
    case Nil
    with Spawn at_Spawn_Nil [OF assms] show ?thesis by blast
  next
    case (Cons w ws')
    obtain k a n where "w = (k, a, n)" by (cases w) auto
    with Cons Spawn at_Spawn_Cons [OF assms] show ?thesis by blast
  qed
next
  case (Join ks)
  show ?thesis
  proof (cases ks)
    case Nil
    with Join at_Join_Nil [OF assms] show ?thesis by blast
  next
    case (Cons k ks')
    with Join at_Join_Cons [OF assms] show ?thesis by blast
  qed
next
  case Finished
  then show ?thesis by (simp add: step_def main_body_def)
next
  case W_new
  with at_W_new [OF assms] show ?thesis by blast
next
  case W_restore
  with at_W_restore [OF assms] show ?thesis by blast
next
  case W_swap
  with at_W_swap [OF assms] show ?thesis by blast
next
  case W_run
  with at_W_run [OF assms] show ?thesis by blast
next
  case (W_script sc)
  with at_W_script [OF assms] show ?thesis by blast
next
  case W_unswap
  with at_W_unswap [OF assms] show ?thesis by blast
next
  case W_clear
  with at_W_clear [OF assms] show ?thesis by blast
next
  case W_delete
  with at_W_delete [OF assms] show ?thesis by blast
next
  case Done
  then show ?thesis by (simp add: step_def f_def)
qed

section \<open>main on its own\<close>

lemma main_names_plain:
  "plain_name ''t1(s1)''" "plain_name ''t2(s2)''" "plain_name ''t3(s1)''" "plain_name ''t4(main)''"
  by (simp_all add: plain_name_def)

lemma main_code_compiled:
  "compile main_code =
     [Op_const (PyStrList [''abc'']), Op_set_sys_attr ''xxx'', Op_sys_attr ''xxx'',
      Op_format ''main: setting sys.xxx='', Op_print]"
  by (simp add: compile_def main_code_def)

lemma spawn_start:
  assumes "after_script r0" "rt c = r0"
    and "pc c = (\<lambda>_. Absent)(0 := Spawn (main_threads (Some 2) (Some 3)) [1, 2, 3, 4])"
  shows "inv 0 (main_threads (Some 2) (Some 3)) r0 c"
proof -
  let ?plan = "main_threads (Some 2) (Some 3)"
  from assms(1) have a: "initialized r0" "gil r0 = Some 0" "current r0 0 = Some 1"
    "tstates r0 = tstates built" "interps r0 = interps built"
    by (simp_all add: after_script_def)
  have "inv_static 0 ?plan r0"
    using a
    by (simp add: inv_static_def main_threads_def built_def arg_value_def main_names_plain)
  moreover have "inv_rt r0 c"
    using a assms(2) by (simp add: inv_rt_def)
  moreover have "inv_lock c"
    using a assms(2,3) by (auto simp add: inv_lock_def)
  moreover have "inv_heap r0 c"
    unfolding inv_heap_def
    by (rule exI [of _ "[]"]) (simp add: assms(2,3))
  moreover have "inv_cur c"
    by (simp add: inv_cur_def assms(3))
  moreover have "inv_main 0 ?plan r0 c"
    unfolding inv_main_def
    apply (rule disjI1)
    apply (rule exI [of _ "[]"], rule exI [of _ ?plan])
    apply (simp add: assms(2,3) main_threads_def)
    done
  moreover have "inv_threads 0 ?plan r0 c"
    by (simp add: inv_threads_def assms(3))
  moreover have "inv_out r0 c"
    unfolding inv_out_def
    by (rule exI [of _ "[]"]) (simp add: assms(2,3))
  moreover have "inv_script r0 c"
    by (simp add: inv_script_def assms(3))
  ultimately show ?thesis by (simp add: inv_def)
qed

lemma solo_others:
  assumes "inv_solo c" "t \<noteq> 0"
  shows "step t sw c = Inl Blocked"
  using assms by (simp add: inv_solo_def step_def main_body_def)

lemma solo_tstate:
  assumes "inv_solo c"
  shows "tstate_at (rt c) 1 = Some \<lparr>interp = 1, cleared = False\<rparr>"
  using assms by (simp add: inv_solo_def tstate_at_def built_def)

lemma solo_run:
  assumes "inv_solo c" "pc c 0 = M_run"
  shows "\<exists>c'. step 0 sw c = Inr c' \<and> inv_solo c'"
proof -
  from assms have s: "gil (rt c) = Some 0" "current (rt c) 0 = Some 1"
    "sys_attrs (rt c) 1 = []" "stdout (rt c) = []"
    by (auto simp add: inv_solo_def)
  let ?c = "goes 0 (M_script (Running 1 (compile main_code) []))
              (logged 0 (Call_RunSimpleString main_code) (rt c)) c"
  have "step 0 sw c = Inr ?c"
    using assms(2) s solo_tstate [OF assms(1)]
    by (simp add: step_def main_body_def PyRun_SimpleString_def)
  moreover have "inv_solo ?c"
    using assms(1) s
    by (simp add: inv_solo_def goes_def logged_def main_code_compiled main_frames_def)
  ultimately show ?thesis by blast
qed

lemma solo_script:
  assumes "inv_solo c" "pc c 0 = M_script sc"
  shows "\<exists>fr \<in> set main_frames.
           sys_attrs (rt c) 1 = fst (snd (snd fr)) \<and> stdout (rt c) = snd (snd (snd fr)) \<and>
           ((sc = Running 1 (fst fr) (fst (snd fr)) \<and> gil (rt c) = Some 0 \<and>
             current (rt c) 0 = Some 1) \<or>
            (sc = Waiting 1 (fst fr) (fst (snd fr)) \<and> gil (rt c) = None))"
  using assms by (auto simp add: inv_solo_def)

lemma solo_keep:
  assumes "inv_solo c" "fr \<in> set main_frames"
    and "pc c' = (pc c)(0 := M_script sc)" "var_s1 c' = var_s1 c" "var_s2 c' = var_s2 c"
    and "initialized (rt c')" "tstates (rt c') = tstates (rt c)" "interps (rt c') = interps (rt c)"
    and "\<forall>i. i \<noteq> 1 \<longrightarrow> sys_attrs (rt c') i = sys_attrs (rt c) i"
    and "sys_attrs (rt c') 1 = fst (snd (snd fr))" "stdout (rt c') = snd (snd (snd fr))"
    and "(sc = Running 1 (fst fr) (fst (snd fr)) \<and> gil (rt c') = Some 0 \<and>
          current (rt c') 0 = Some 1) \<or>
         (sc = Waiting 1 (fst fr) (fst (snd fr)) \<and> gil (rt c') = None)"
  shows "inv_solo c'"
proof -
  from assms(1) have old: "\<forall>t. t \<noteq> 0 \<longrightarrow> pc c t = Absent" "var_s1 c = Some 2"
    "var_s2 c = Some 3" "tstates (rt c) = tstates built" "interps (rt c) = interps built"
    "\<forall>i. i \<noteq> 1 \<longrightarrow> sys_attrs (rt c) i = []"
    by (simp_all add: inv_solo_def)
  have 1: "\<forall>t. t \<noteq> 0 \<longrightarrow> pc c' t = Absent"
    using old(1) assms(3) by simp
  have 2: "\<forall>i. i \<noteq> 1 \<longrightarrow> sys_attrs (rt c') i = []"
    using old(6) assms(9) by simp
  have 3: "\<exists>fr \<in> set main_frames.
         sys_attrs (rt c') 1 = fst (snd (snd fr)) \<and> stdout (rt c') = snd (snd (snd fr)) \<and>
         ((pc c' 0 = M_script (Running 1 (fst fr) (fst (snd fr))) \<and> gil (rt c') = Some 0 \<and>
           current (rt c') 0 = Some 1) \<or>
          (pc c' 0 = M_script (Waiting 1 (fst fr) (fst (snd fr))) \<and> gil (rt c') = None))"
    apply (rule bexI [of _ fr])
    using assms(10,11,12) assms(3) apply simp
    apply (rule assms(2))
    done
  show ?thesis
    unfolding inv_solo_def
    using 1 2 3 old(2,3,4,5) assms(4,5,6,7,8) by simp
qed

lemma solo_waiting:
  assumes "inv_solo c" "pc c 0 = M_script (Waiting p ops stk)"
  shows "\<exists>c'. step 0 sw c = Inr c' \<and> inv_solo c'"
proof -
  from solo_script [OF assms] obtain fr where
    fr: "fr \<in> set main_frames" "sys_attrs (rt c) 1 = fst (snd (snd fr))"
      "stdout (rt c) = snd (snd (snd fr))" "p = 1" "ops = fst fr" "stk = fst (snd fr)"
      "gil (rt c) = None"
    by auto
  from assms(1) have i: "initialized (rt c)" by (simp add: inv_solo_def)
  let ?r = "(rt c)\<lparr>gil := Some 0, current := (current (rt c))(0 := Some 1)\<rparr>"
  let ?c = "goes 0 (M_script (Running 1 ops stk)) ?r c"
  have "step 0 sw c = Inr ?c"
    using assms(2) fr(4,7) solo_tstate [OF assms(1)]
    by (simp add: step_def main_body_def PyRun_continue_def)
  moreover have "inv_solo ?c"
    by (rule solo_keep [OF assms(1) fr(1), of _ "Running 1 ops stk"])
      (use fr i in \<open>simp_all add: goes_def\<close>)
  ultimately show ?thesis by blast
qed

lemma solo_switch:
  assumes "inv_solo c" "pc c 0 = M_script (Running p ops stk)"
  shows "\<exists>c'. step 0 True c = Inr c' \<and> inv_solo c'"
proof -
  from solo_script [OF assms] obtain fr where
    fr: "fr \<in> set main_frames" "sys_attrs (rt c) 1 = fst (snd (snd fr))"
      "stdout (rt c) = snd (snd (snd fr))" "p = 1" "ops = fst fr" "stk = fst (snd fr)"
      "gil (rt c) = Some 0" "current (rt c) 0 = Some 1"
    by auto
  from assms(1) have i: "initialized (rt c)" by (simp add: inv_solo_def)
  let ?r = "(rt c)\<lparr>gil := None, current := (current (rt c))(0 := None)\<rparr>"
  let ?c = "goes 0 (M_script (Waiting 1 ops stk)) ?r c"
  have "step 0 True c = Inr ?c"
    using assms(2) fr(4,7,8) solo_tstate [OF assms(1)]
    by (simp add: step_def main_body_def PyRun_continue_def)
  moreover have "inv_solo ?c"
    by (rule solo_keep [OF assms(1) fr(1), of _ "Waiting 1 ops stk"])
      (use fr i in \<open>simp_all add: goes_def\<close>)
  ultimately show ?thesis by blast
qed

lemma solo_exec:
  assumes "inv_solo c" "pc c 0 = M_script (Running p ops stk)"
  shows "\<exists>c'. step 0 False c = Inr c' \<and> reachable c'"
proof -
  from solo_script [OF assms] obtain fr where
    fr: "fr \<in> set main_frames" "sys_attrs (rt c) 1 = fst (snd (snd fr))"
      "stdout (rt c) = snd (snd (snd fr))" "p = 1" "ops = fst fr" "stk = fst (snd fr)"
      "gil (rt c) = Some 0" "current (rt c) 0 = Some 1"
    by auto
  from assms(1) have i: "initialized (rt c)" by (simp add: inv_solo_def)
  note l = solo_tstate [OF assms(1)]
  have len: "length main_frames = 6" by (simp add: main_frames_def)
  from fr(1) obtain k where k: "k < 6" "fr = main_frames ! k"
    by (auto simp add: in_set_conv_nth len)
  have next_frame: "main_frames ! j \<in> set main_frames" if "j < 6" for j
    using that by (simp add: len)
  from k(1) consider "k = 0" | "k = 1" | "k = 2" | "k = 3" | "k = 4" | "k = 5" by linarith
  then show ?thesis
  proof cases
    case 1
    with k fr have o: "ops = fst (main_frames ! 0)" "stk = []" "sys_attrs (rt c) 1 = []"
      "stdout (rt c) = []"
      by (simp_all add: main_frames_def)
    let ?sc = "Running 1 (fst (main_frames ! 1)) (fst (snd (main_frames ! 1)))"
    let ?c = "goes 0 (M_script ?sc) (rt c) c"
    have "step 0 False c = Inr ?c"
      using assms(2) fr(4,7,8) l o
      by (simp add: step_def main_body_def PyRun_continue_def main_frames_def)
    moreover have "inv_solo ?c"
      by (rule solo_keep [OF assms(1) next_frame [of 1], of _ ?sc])
        (use o i fr(7,8) in \<open>simp_all add: goes_def main_frames_def\<close>)
    ultimately show ?thesis by (auto simp add: reachable_def)
  next
    case 2
    with k fr have o: "ops = fst (main_frames ! 1)" "stk = [PyStrList [''abc'']]"
      "sys_attrs (rt c) 1 = []" "stdout (rt c) = []"
      by (simp_all add: main_frames_def)
    let ?sc = "Running 1 (fst (main_frames ! 2)) (fst (snd (main_frames ! 2)))"
    let ?r = "(rt c)\<lparr>sys_attrs := (sys_attrs (rt c))(1 := [(''xxx'', PyStrList [''abc''])])\<rparr>"
    let ?c = "goes 0 (M_script ?sc) ?r c"
    have "step 0 False c = Inr ?c"
      using assms(2) fr(4,7,8) l o
      by (simp add: step_def main_body_def PyRun_continue_def main_frames_def)
    moreover have "inv_solo ?c"
      by (rule solo_keep [OF assms(1) next_frame [of 2], of _ ?sc])
        (use o i fr(7,8) in \<open>simp_all add: goes_def main_frames_def\<close>)
    ultimately show ?thesis by (auto simp add: reachable_def)
  next
    case 3
    with k fr have o: "ops = fst (main_frames ! 2)" "stk = []"
      "sys_attrs (rt c) 1 = [(''xxx'', PyStrList [''abc''])]" "stdout (rt c) = []"
      by (simp_all add: main_frames_def)
    let ?sc = "Running 1 (fst (main_frames ! 3)) (fst (snd (main_frames ! 3)))"
    let ?c = "goes 0 (M_script ?sc) (rt c) c"
    have "step 0 False c = Inr ?c"
      using assms(2) fr(4,7,8) l o
      by (simp add: step_def main_body_def PyRun_continue_def main_frames_def)
    moreover have "inv_solo ?c"
      by (rule solo_keep [OF assms(1) next_frame [of 3], of _ ?sc])
        (use o i fr(7,8) in \<open>simp_all add: goes_def main_frames_def\<close>)
    ultimately show ?thesis by (auto simp add: reachable_def)
  next
    case 4
    with k fr have o: "ops = fst (main_frames ! 3)" "stk = [PyStrList [''abc'']]"
      "sys_attrs (rt c) 1 = [(''xxx'', PyStrList [''abc''])]" "stdout (rt c) = []"
      by (simp_all add: main_frames_def)
    let ?sc = "Running 1 (fst (main_frames ! 4)) (fst (snd (main_frames ! 4)))"
    let ?c = "goes 0 (M_script ?sc) (rt c) c"
    have "step 0 False c = Inr ?c"
      using assms(2) fr(4,7,8) l o
      by (simp add: step_def main_body_def PyRun_continue_def main_frames_def)
    moreover have "inv_solo ?c"
      by (rule solo_keep [OF assms(1) next_frame [of 4], of _ ?sc])
        (use o i fr(7,8) in \<open>simp_all add: goes_def main_frames_def\<close>)
    ultimately show ?thesis by (auto simp add: reachable_def)
  next
    case 5
    with k fr have o: "ops = fst (main_frames ! 4)"
      "stk = [PyStr ''main: setting sys.xxx=['abc']'']"
      "sys_attrs (rt c) 1 = [(''xxx'', PyStrList [''abc''])]" "stdout (rt c) = []"
      by (simp_all add: main_frames_def)
    let ?sc = "Running 1 (fst (main_frames ! 5)) (fst (snd (main_frames ! 5)))"
    let ?r = "(rt c)\<lparr>stdout := stdout (rt c) @ [(1, ''main: setting sys.xxx=['abc']'')]\<rparr>"
    let ?c = "goes 0 (M_script ?sc) ?r c"
    have "step 0 False c = Inr ?c"
      using assms(2) fr(4,7,8) l o
      by (simp add: step_def main_body_def PyRun_continue_def main_frames_def)
    moreover have "inv_solo ?c"
      by (rule solo_keep [OF assms(1) next_frame [of 5], of _ ?sc])
        (use o i fr(7,8) in \<open>simp_all add: goes_def main_frames_def\<close>)
    ultimately show ?thesis by (auto simp add: reachable_def)
  next
    case 6
    with k fr have o: "ops = []" "stk = []"
      "sys_attrs (rt c) 1 = [(''xxx'', PyStrList [''abc''])]"
      "stdout (rt c) = [(1, ''main: setting sys.xxx=['abc']'')]"
      by (simp_all add: main_frames_def)
    from assms(1) have s: "\<forall>t. t \<noteq> 0 \<longrightarrow> pc c t = Absent" "var_s1 c = Some 2"
      "var_s2 c = Some 3" "tstates (rt c) = tstates built" "interps (rt c) = interps built"
      "\<forall>i. i \<noteq> 1 \<longrightarrow> sys_attrs (rt c) i = []"
      by (simp_all add: inv_solo_def)
    let ?c = "goes 0 (Spawn (main_threads (Some 2) (Some 3)) [1, 2, 3, 4]) (rt c) c"
    have st: "step 0 False c = Inr ?c"
      using assms(2) fr(4,7,8) l o s(2,3)
      by (simp add: step_def main_body_def PyRun_continue_def)
    have ns: "sys_attrs (rt c) = (\<lambda>_. [])(1 := [(''xxx'', PyStrList [''abc''])])"
      using s(6) o(3) by (auto simp add: fun_eq_iff)
    have a: "after_script (rt c)"
      using i fr(7,8) s(4,5) ns o(4) by (simp add: after_script_def)
    have pcs: "pc ?c = (\<lambda>_. Absent)(0 := Spawn (main_threads (Some 2) (Some 3)) [1, 2, 3, 4])"
      using s(1) by (auto simp add: goes_def fun_eq_iff)
    have "inv 0 (main_threads (Some 2) (Some 3)) (rt c) ?c"
      by (rule spawn_start [OF a _ pcs]) (simp add: goes_def)
    with a st show ?thesis unfolding reachable_def by blast
  qed
qed

lemma solo_step:
  assumes "inv_solo c"
  shows "step t sw c = Inl Blocked \<or> (\<exists>c'. step t sw c = Inr c' \<and> reachable c')"
proof (cases "t = 0")
  case False
  with solo_others [OF assms] show ?thesis by simp
next
  case True
  from assms have "pc c 0 = M_run \<or> (\<exists>sc. pc c 0 = M_script sc)"
    by (auto simp add: inv_solo_def)
  then show ?thesis
  proof
    assume "pc c 0 = M_run"
    from solo_run [OF assms this, of sw] True show ?thesis
      by (auto simp add: reachable_def)
  next
    assume "\<exists>sc. pc c 0 = M_script sc"
    then obtain sc where sc: "pc c 0 = M_script sc" ..
    from solo_script [OF assms sc] obtain p ops stk where
      "sc = Running p ops stk \<or> sc = Waiting p ops stk" by auto
    then show ?thesis
    proof
      assume "sc = Waiting p ops stk"
      with sc solo_waiting [OF assms, of p ops stk sw] True show ?thesis
        by (auto simp add: reachable_def)
    next
      assume r: "sc = Running p ops stk"
      show ?thesis
      proof (cases sw)
        case True
        with \<open>t = 0\<close> r sc solo_switch [OF assms, of p ops stk] show ?thesis
          by (auto simp add: reachable_def)
      next
        case False
        with \<open>t = 0\<close> r sc solo_exec [OF assms, of p ops stk] show ?thesis
          by auto
      qed
    qed
  qed
qed

text \<open>
  Every action of every thread, in a configuration main and its threads can reach, either
  has to wait or leads to a configuration they can reach: it is never fatal.
\<close>

lemma reachable_step:
  assumes "reachable c"
  shows "step t sw c = Inl Blocked \<or> (\<exists>c'. step t sw c = Inr c' \<and> reachable c')"
proof -
  from assms have "inv_solo c \<or> (\<exists>r0. after_script r0 \<and> inv 0 (main_threads (Some 2) (Some 3)) r0 c)"
    by (simp add: reachable_def)
  then show ?thesis
  proof
    assume "inv_solo c"
    from solo_step [OF this] show ?thesis .
  next
    assume "\<exists>r0. after_script r0 \<and> inv 0 (main_threads (Some 2) (Some 3)) r0 c"
    then obtain r0 where r0: "after_script r0" "inv 0 (main_threads (Some 2) (Some 3)) r0 c"
      by blast
    from inv_step [OF r0(2), of t sw] r0(1) show ?thesis
      unfolding reachable_def by blast
  qed
qed

lemma reachable_run_sched:
  assumes "reachable c"
  shows "run_sched sched c = Inl Blocked \<or> (\<exists>c'. run_sched sched c = Inr c' \<and> reachable c')"
  using assms
proof (induction sched arbitrary: c)
  case Nil
  then show ?case by simp
next
  case (Cons e es)
  obtain t sw where e: "e = (t, sw)" by (cases e)
  from reachable_step [OF Cons.prems, of t sw] show ?case
  proof
    assume "step t sw c = Inl Blocked"
    then show ?thesis by (simp add: e)
  next
    assume "\<exists>c'. step t sw c = Inr c' \<and> reachable c'"
    then obtain c1 where c1: "step t sw c = Inr c1" "reachable c1" by blast
    from Cons.IH [OF c1(2)] c1(1) show ?thesis by (simp add: e)
  qed
qed

lemma main_builds:
  "and_then (initialize_ctor 0 not_started) (\<lambda>sa.
   and_then (sub_interpreter_ctor 0 True sa) (\<lambda>(s1, sb).
   and_then (sub_interpreter_ctor 0 True sb) (\<lambda>(s2, sc). Inr (s1, s2, sc))))
   = Inr (Some 2, Some 3, built)"
  apply (simp add: booted_is_init sub_interpreter_ctor_def restore_tstate_scope_ctor_def
      restore_tstate_scope_dtor_def PyThreadState_Get_def Py_NewInterpreter_def
      PyThreadState_Swap_def booted_def logged_def fresh_ptr_def Let_def built_def)
  apply (simp add: numeral_2_eq_2 numeral_3_eq_3)
  done

lemma process_reachable: "reachable (process 0 (Some 2) (Some 3) built)"
  by (simp add: reachable_def inv_solo_def process_def built_def)

section \<open>No deadlock\<close>

lemma left_decreases:
  assumes "step t False c = Inr c'"
  shows "left (pc c' t) < left (pc c t) \<and> (\<forall>u. u \<noteq> t \<longrightarrow> left (pc c' u) \<le> left (pc c u))"
  using assms
  by (auto simp add: step_def f_def main_body_def goes_def and_then_def PyRun_continue_def
      PyRun_SimpleString_def f_code_def compile_def main_code_def main_threads_def
      split: point.splits list.splits sum.splits if_splits prod.splits option.splits
        script.splits)

lemma todo_decreases:
  assumes "step t False c = Inr c'" "t \<in> {0, 1, 2, 3, 4}"
  shows "todo c' < todo c"
proof -
  from left_decreases [OF assms(1)] have
    d: "left (pc c' t) < left (pc c t)" and o: "\<And>u. u \<noteq> t \<Longrightarrow> left (pc c' u) \<le> left (pc c u)"
    by blast+
  have le: "left (pc c' u) \<le> left (pc c u)" for u
    using d o [of u] by (cases "u = t") auto
  from assms(2) consider "t = 0" | "t = 1" | "t = 2" | "t = 3" | "t = 4" by auto
  then show ?thesis
  proof cases
    case 1
    with d le [of 1] le [of 2] le [of 3] le [of 4] show ?thesis by (simp add: todo_def)
  next
    case 2
    with d le [of 0] le [of 2] le [of 3] le [of 4] show ?thesis by (simp add: todo_def)
  next
    case 3
    with d le [of 0] le [of 1] le [of 3] le [of 4] show ?thesis by (simp add: todo_def)
  next
    case 4
    with d le [of 0] le [of 1] le [of 2] le [of 4] show ?thesis by (simp add: todo_def)
  next
    case 5
    with d le [of 0] le [of 1] le [of 2] le [of 3] show ?thesis by (simp add: todo_def)
  qed
qed

text \<open>An action without switch request has to wait only for the lock or for a thread.\<close>

lemma blocked_cases:
  assumes "step t False c = Inl Blocked"
  shows "pc c t = Absent \<or> pc c t = Finished \<or> pc c t = Done \<or>
         (gil (rt c) \<noteq> None \<and> \<not> holding (pc c t)) \<or>
         (\<exists>k ks. pc c t = Join (k # ks) \<and> pc c k \<noteq> Done)"
  using assms
  by (auto simp add: step_def f_def main_body_def and_then_def PyRun_continue_def
      PyRun_SimpleString_def PyEval_RestoreThread_def PyEval_SaveThread_def
      PyThreadState_New_def PyThreadState_Swap_def PyThreadState_Clear_def
      PyThreadState_DeleteCurrent_def PyThreadState_Get_def
      enable_threads_scope_ctor_def enable_threads_scope_dtor_def
      swap_tstate_scope_ctor_def swap_tstate_scope_dtor_def eval_arg_def
      sub_interpreter_interp_def sub_interpreter_current_def thread_state_current_def
      deref_interp_def Let_def
      split: point.splits list.splits sum.splits if_splits prod.splits option.splits
        script.splits arg.splits)

lemma progress:
  assumes "reachable c" "pc c 0 \<noteq> Finished"
  shows "\<exists>t c'. t \<in> {0, 1, 2, 3, 4} \<and> step t False c = Inr c'"
proof -
  have move: "\<exists>c'. step t False c = Inr c'"
    if "pc c t \<noteq> Absent" "pc c t \<noteq> Finished" "pc c t \<noteq> Done"
      "gil (rt c) = None \<or> holding (pc c t)"
      "\<And>k ks. pc c t = Join (k # ks) \<Longrightarrow> pc c k = Done" for t
  proof -
    have "step t False c \<noteq> Inl Blocked"
    proof
      assume "step t False c = Inl Blocked"
      from blocked_cases [OF this] that show False by auto
    qed
    with reachable_step [OF assms(1), of t False] show ?thesis by blast
  qed
  from assms(1) have "inv_solo c \<or> (\<exists>r0. after_script r0 \<and> inv 0 (main_threads (Some 2) (Some 3)) r0 c)"
    by (simp add: reachable_def)
  then show ?thesis
  proof
    assume s: "inv_solo c"
    then have "\<exists>c'. step 0 False c = Inr c'"
      by (intro move) (auto simp add: inv_solo_def)
    then show ?thesis by auto
  next
    let ?plan = "main_threads (Some 2) (Some 3)"
    assume "\<exists>r0. after_script r0 \<and> inv 0 ?plan r0 c"
    then obtain r0 where i: "inv 0 ?plan r0 c" by blast
    then have parts: "inv_static 0 ?plan r0" "inv_lock c" "inv_main 0 ?plan r0 c"
      "inv_threads 0 ?plan r0 c" "inv_script r0 c"
      by (simp_all add: inv_def)
    have kid: "t \<in> {1, 2, 3, 4}" if "t \<noteq> 0" "pc c t \<noteq> Absent" for t
    proof -
      from parts(4) that obtain a where "(t, a, arg_tname c t) \<in> set ?plan"
        unfolding inv_threads_def by blast
      then show ?thesis by (auto simp add: main_threads_def)
    qed
    show ?thesis
    proof (cases "gil (rt c)")
      case (Some t)
      with parts(2) have h: "holding (pc c t)" by (simp add: inv_lock_def)
      have nf: "pc c t \<noteq> Finished"
      proof
        assume "pc c t = Finished"
        with main_point_is_main [OF parts(4), of t] assms(2) show False by auto
      qed
      from h nf have "\<exists>c'. step t False c = Inr c'"
        by (intro move) auto
      moreover have "t \<in> {0, 1, 2, 3, 4}"
      proof (cases "t = 0")
        case False
        from h have "pc c t \<noteq> Absent" by auto
        from kid [OF False this] show ?thesis by auto
      qed simp
      ultimately show ?thesis by blast
    next
      case None
      with parts(2) have idle: "\<not> holding (pc c t)" for t
        by (simp add: inv_lock_def)
      from parts(3) idle [of 0] obtain ds ks where j: "pc c 0 = Join ks"
        "map fst ?plan = ds @ ks" "\<forall>k \<in> set ks. pc c k \<noteq> Absent"
        by (auto simp add: inv_main_def)
      show ?thesis
      proof (cases ks)
        case Nil
        with j(1) None have "\<exists>c'. step 0 False c = Inr c'"
          by (intro move) auto
        then show ?thesis by auto
      next
        case (Cons k ks')
        with j(3) have ka: "pc c k \<noteq> Absent" by simp
        from Cons j(2) have "k \<in> set (map fst ?plan)" by simp
        then have k14: "k \<in> {1, 2, 3, 4}" by (auto simp add: main_threads_def)
        then have k0: "k \<noteq> 0" by auto
        show ?thesis
        proof (cases "pc c k = Done")
          case True
          with j(1) Cons None have "\<exists>c'. step 0 False c = Inr c'"
            by (intro move) auto
          then show ?thesis by auto
        next
          case False
          from parts(4) k0 ka have w: "worker_point (pc c k)"
            unfolding inv_threads_def by blast
          have "\<exists>c'. step k False c = Inr c'"
          proof (rule move)
            show "pc c k \<noteq> Absent" by (rule ka)
            show "pc c k \<noteq> Finished" using w by auto
            show "pc c k \<noteq> Done" by (rule False)
            show "gil (rt c) = None \<or> holding (pc c k)" using None by simp
            show "pc c k' = Done" if "pc c k = Join (k' # ks'')" for k' ks''
              using that w by simp
          qed
          with k14 show ?thesis by auto
        qed
      qed
    qed
  qed
qed

text \<open>
  From every configuration main and its threads can reach, they can go on until main has
  joined its threads and taken the lock back.
\<close>

lemma can_finish:
  assumes "reachable c"
  shows "\<exists>more c'. run_sched more c = Inr c' \<and> reachable c' \<and> pc c' 0 = Finished"
  using assms
proof (induction "todo c" arbitrary: c rule: less_induct)
  case less
  show ?case
  proof (cases "pc c 0 = Finished")
    case True
    with less.prems have "run_sched [] c = Inr c \<and> reachable c \<and> pc c 0 = Finished" by simp
    then show ?thesis by blast
  next
    case False
    from progress [OF less.prems False] obtain t c1 where
      t: "t \<in> {0, 1, 2, 3, 4}" "step t False c = Inr c1" by blast
    from reachable_step [OF less.prems, of t False] t(2) have r1: "reachable c1" by auto
    from todo_decreases [OF t(2,1)] have "todo c1 < todo c" .
    from less.hyps [OF this r1] obtain more c' where
      m: "run_sched more c1 = Inr c'" "reachable c'" "pc c' 0 = Finished" by blast
    from t(2) m(1) have "run_sched ((t, False) # more) c = Inr c'" by simp
    with m(2,3) show ?thesis by blast
  qed
qed

lemma run_sched_append:
  "run_sched (xs @ ys) c = and_then (run_sched xs c) (run_sched ys)"
proof (induction xs arbitrary: c)
  case Nil
  then show ?case by simp
next
  case (Cons e es)
  obtain t sw where e: "e = (t, sw)" by (cases e)
  show ?case
  proof (cases "step t sw c")
    case (Inl x)
    then show ?thesis by (simp add: e)
  next
    case (Inr c1)
    with Cons.IH [of c1] show ?thesis by (simp add: e)
  qed
qed

section \<open>The scenario of main\<close>

text \<open>When main has joined its threads, their thread states are gone and all have printed.\<close>

lemma inv_finished:
  assumes "inv m plan r0 c" "pc c m = Finished"
  shows "initialized (rt c) \<and> gil (rt c) = Some m \<and> current (rt c) m = current r0 m \<and>
         tstates (rt c) = tstates r0 \<and> interps (rt c) = interps r0 \<and>
         sys_attrs (rt c) = sys_attrs r0 \<and>
         (\<exists>order. distinct order \<and> set order = fst ` set plan \<and>
            stdout (rt c) =
              stdout r0 @
              map (\<lambda>t. (arg_interp c t,
                         f_prints (arg_tname c t) (sys_attrs r0 (arg_interp c t)))) order)"
proof -
  from assms have parts: "inv_static m plan r0" "inv_rt r0 c" "inv_lock c" "inv_heap r0 c"
    "inv_cur c" "inv_main m plan r0 c" "inv_threads m plan r0 c" "inv_out r0 c"
    by (simp_all add: inv_def)
  from parts(6) assms(2) have cur: "current (rt c) m = current r0 m"
    by (auto simp add: inv_main_def)
  have alld: "pc c k = Done" if "k \<in> fst ` set plan" for k
    using parts(6) assms(2) that by (auto simp add: inv_main_def)
  have g: "gil (rt c) = Some m"
    by (rule holder [OF parts(3)]) (simp add: assms(2))
  from parts(1) have mk: "m \<notin> fst ` set plan" by (simp add: inv_static_def)
  have place: "pc c t = (if t = m then Finished else if t \<in> fst ` set plan then Done else Absent)"
    for t
  proof (cases "t = m")
    case True
    with assms(2) show ?thesis by simp
  next
    case False
    show ?thesis
    proof (cases "t \<in> fst ` set plan")
      case True
      from alld [OF True] False True show ?thesis by simp
    next
      case nk: False
      from parts(7) False have "pc c t = Absent \<or>
          (\<exists>a. (t, a, arg_tname c t) \<in> set plan)"
        unfolding inv_threads_def by blast
      moreover have "\<not> (\<exists>a. (t, a, arg_tname c t) \<in> set plan)"
        using nk by force
      ultimately show ?thesis using False nk by simp
    qed
  qed
  have idle: "\<not> active (pc c t)" for t
    by (simp add: place)
  obtain ws where ws: "tstates (rt c) = ws @ tstates r0"
    "\<And>e. e \<in> set ws \<Longrightarrow> \<exists>t. active (pc c t) \<and> var_state c t = Some (fst e)"
    by (rule heap_parts [OF parts(4)]) blast
  from ws(2) idle have "ws = []"
    by (cases ws) auto
  with ws(1) have heap: "tstates (rt c) = tstates r0" by simp
  from mk have "{t. printed (pc c t)} = fst ` set plan"
    by (auto simp add: place split: if_splits)
  with parts(8) have out: "\<exists>order. distinct order \<and> set order = fst ` set plan \<and>
            stdout (rt c) =
              stdout r0 @
              map (\<lambda>t. (arg_interp c t,
                         f_prints (arg_tname c t) (sys_attrs r0 (arg_interp c t)))) order"
    unfolding inv_out_def by auto
  from parts(2) cur g heap out show ?thesis
    by (simp add: inv_rt_def)
qed

lemma main_shape:
  "main True True sched not_started =
     and_then (run_sched sched (process 0 (Some 2) (Some 3) built))
       (\<lambda>c. if pc c 0 \<noteq> Finished then Inl Blocked
            else and_then (sub_interpreter_dtor 0 (Some 3) (rt c))
       (\<lambda>si. and_then (sub_interpreter_dtor 0 (Some 2) si)
       (\<lambda>sj. and_then (initialize_dtor 0 sj) (\<lambda>sk. Inr (0, sk)))))"
proof -
  have b: "sub_interpreter_ctor 0 True booted =
             Inr (Some 2, built\<lparr>tstates := tl (tstates built), interps := tl (interps built),
                                calls := take 5 (calls built)\<rparr>)"
    apply (simp add: sub_interpreter_ctor_def restore_tstate_scope_ctor_def
      restore_tstate_scope_dtor_def PyThreadState_Get_def Py_NewInterpreter_def
      PyThreadState_Swap_def booted_def logged_def fresh_ptr_def Let_def built_def)
    apply (simp add: numeral_2_eq_2 numeral_3_eq_3 fun_eq_iff)
    done
  have c: "sub_interpreter_ctor 0 True
             (built\<lparr>tstates := tl (tstates built), interps := tl (interps built),
                    calls := take 5 (calls built)\<rparr>) = Inr (Some 3, built)"
    apply (simp add: sub_interpreter_ctor_def restore_tstate_scope_ctor_def
      restore_tstate_scope_dtor_def PyThreadState_Get_def Py_NewInterpreter_def
      PyThreadState_Swap_def logged_def fresh_ptr_def Let_def built_def)
    apply (simp add: numeral_2_eq_2 numeral_3_eq_3 fun_eq_iff)
    done
  show ?thesis
    by (simp only: main_def booted_is_init and_then_Inr b c prod.case)
qed

lemma main_unwinds:
  assumes "initialized s" "gil s = Some 0" "tstates s = tstates built"
    "interps s = interps built" "current s 0 = Some 1"
  shows "\<exists>sk. and_then (sub_interpreter_dtor 0 (Some 3) s)
       (\<lambda>si. and_then (sub_interpreter_dtor 0 (Some 2) si)
       (\<lambda>sj. and_then (initialize_dtor 0 sj) (\<lambda>sk. Inr (0, sk)))) = Inr (0 :: int, sk) \<and>
       stdout sk = stdout s"
  using assms
  by (simp add: sub_interpreter_dtor_def
      swap_tstate_scope_ctor_def swap_tstate_scope_dtor_def PyThreadState_Swap_def
      Py_EndInterpreter_def initialize_dtor_def Py_Finalize_def logged_def tstate_at_def
      built_def)

text \<open>What a thread of main prints, and into the stream of which interpreter.\<close>

lemma main_thread_prints:
  assumes "after_script r0" "inv_threads 0 (main_threads (Some 2) (Some 3)) r0 c"
    and "pc c t \<noteq> Absent" "t \<in> {1, 2, 3, 4}"
  shows "(arg_interp c t, f_prints (arg_tname c t) (sys_attrs r0 (arg_interp c t)))
         = [(2, ''t1(s1): sys.xxx=attribute not set''), (3, ''t2(s2): sys.xxx=attribute not set''),
            (2, ''t3(s1): sys.xxx=attribute not set''), (1, ''t4(main): sys.xxx=['abc']'')]
           ! (t - 1)"
proof -
  from assms(4) have t0: "t \<noteq> 0" by auto
  with assms(2,3) obtain a where
    a: "(t, a, arg_tname c t) \<in> set (main_threads (Some 2) (Some 3))"
       "arg_value r0 0 a = Some (arg_interp c t)"
    unfolding inv_threads_def by blast
  from assms(1) have r: "current r0 0 = Some 1" "tstates r0 = tstates built"
    "sys_attrs r0 = (\<lambda>_. [])(1 := [(''xxx'', PyStrList [''abc''])])"
    by (simp_all add: after_script_def)
  from a(1) have
    "(t = 1 \<and> a = Interp_of (Some 2) \<and> arg_tname c t = ''t1(s1)'') \<or>
     (t = 2 \<and> a = Interp_of (Some 3) \<and> arg_tname c t = ''t2(s2)'') \<or>
     (t = 3 \<and> a = Interp_of (Some 2) \<and> arg_tname c t = ''t3(s1)'') \<or>
     (t = 4 \<and> a = Interp_current \<and> arg_tname c t = ''t4(main)'')"
    by (simp add: main_threads_def)
  then show ?thesis
  proof (elim disjE conjE)
    assume h: "t = 1" "a = Interp_of (Some 2)" "arg_tname c t = ''t1(s1)''"
    with a(2) r have "arg_interp c t = 2" by (simp add: arg_value_def built_def)
    with h r(3) show ?thesis by (simp add: f_prints_def)
  next
    assume h: "t = 2" "a = Interp_of (Some 3)" "arg_tname c t = ''t2(s2)''"
    with a(2) r have "arg_interp c t = 3" by (simp add: arg_value_def built_def)
    with h r(3) show ?thesis by (simp add: f_prints_def)
  next
    assume h: "t = 3" "a = Interp_of (Some 2)" "arg_tname c t = ''t3(s1)''"
    with a(2) r have "arg_interp c t = 2" by (simp add: arg_value_def built_def)
    with h r(3) show ?thesis by (simp add: f_prints_def)
  next
    assume h: "t = 4" "a = Interp_current" "arg_tname c t = ''t4(main)''"
    with a(2) r have "arg_interp c t = 1" by (simp add: arg_value_def built_def)
    with h r(3) show ?thesis by (simp add: f_prints_def)
  qed
qed

lemma reachable_namespaces:
  assumes "reachable c"
  shows "sys_attrs (rt c) 2 = [] \<and> sys_attrs (rt c) 3 = []"
proof -
  from assms have "inv_solo c \<or> (\<exists>r0. after_script r0 \<and> inv 0 (main_threads (Some 2) (Some 3)) r0 c)"
    by (simp add: reachable_def)
  then show ?thesis
  proof
    assume "inv_solo c"
    then show ?thesis by (simp add: inv_solo_def)
  next
    assume "\<exists>r0. after_script r0 \<and> inv 0 (main_threads (Some 2) (Some 3)) r0 c"
    then obtain r0 where "after_script r0" "inv_rt r0 c"
      by (auto simp add: inv_def)
    then show ?thesis by (simp add: after_script_def inv_rt_def)
  qed
qed

lemma sched_returns: "\<exists>s'. main True True interleaved not_started = Inr (0, s')"
  unfolding main_shape interleaved_def
  by (simp add: process_def built_def main_threads_def step_def f_def main_body_def goes_def
      eval_arg_def sub_interpreter_interp_def sub_interpreter_current_def
      thread_state_current_def deref_interp_def PyThreadState_Get_def
      enable_threads_scope_ctor_def enable_threads_scope_dtor_def PyEval_SaveThread_def
      PyEval_RestoreThread_def PyThreadState_New_def swap_tstate_scope_ctor_def
      swap_tstate_scope_dtor_def PyThreadState_Swap_def PyRun_SimpleString_def
      PyRun_continue_def f_code_def main_names_plain compile_def main_code_def
      PyThreadState_Clear_def PyThreadState_DeleteCurrent_def logged_def tstate_at_def
      fresh_ptr_def Let_def sub_interpreter_dtor_def Py_EndInterpreter_def
      initialize_dtor_def Py_Finalize_def)

lemma main_returns:
  assumes "reachable c" "pc c 0 = Finished"
  shows "\<exists>sk. and_then (sub_interpreter_dtor 0 (Some 3) (rt c))
               (\<lambda>si. and_then (sub_interpreter_dtor 0 (Some 2) si)
               (\<lambda>sj. and_then (initialize_dtor 0 sj) (\<lambda>sk. Inr (0, sk)))) = Inr (0 :: int, sk) \<and>
            stdout sk = stdout (rt c)"
proof -
  from assms obtain r0 where r0: "after_script r0" "inv 0 (main_threads (Some 2) (Some 3)) r0 c"
    by (auto simp add: reachable_def inv_solo_def)
  from inv_finished [OF r0(2) assms(2)] have
    fin: "initialized (rt c)" "gil (rt c) = Some 0" "current (rt c) 0 = current r0 0"
      "tstates (rt c) = tstates r0" "interps (rt c) = interps r0"
    by blast+
  from r0(1) have a: "current r0 0 = Some 1" "tstates r0 = tstates built"
    "interps r0 = interps built"
    by (simp_all add: after_script_def)
  have cur: "current (rt c) 0 = Some 1" "tstates (rt c) = tstates built"
    "interps (rt c) = interps built"
    using fin(3,4,5) a by simp_all
  from main_unwinds [OF fin(1,2) cur(2,3,1)] show ?thesis .
qed

lemma main_can_return:
  assumes "run_sched sched (process 0 (Some 2) (Some 3) built) = Inr c"
  shows "\<exists>more s'. main True True (sched @ more) not_started = Inr (0, s')"
proof -
  from reachable_run_sched [OF process_reachable, of sched] assms
  have "reachable c" by auto
  from can_finish [OF this] obtain more c' where
    m: "run_sched more c = Inr c'" "reachable c'" "pc c' 0 = Finished" by blast
  from main_returns [OF m(2,3)] obtain sk where
    sk: "and_then (sub_interpreter_dtor 0 (Some 3) (rt c'))
               (\<lambda>si. and_then (sub_interpreter_dtor 0 (Some 2) si)
               (\<lambda>sj. and_then (initialize_dtor 0 sj) (\<lambda>sk. Inr (0, sk)))) = Inr (0 :: int, sk)"
    by blast
  have "run_sched (sched @ more) (process 0 (Some 2) (Some 3) built) = Inr c'"
    by (simp add: run_sched_append assms m(1))
  then have "main True True (sched @ more) not_started = Inr (0, sk)"
    by (simp only: main_shape and_then_Inr m(3) sk if_False simp_thms)
  then show ?thesis by blast
qed

text \<open>
  Claim C7.  main creates \<open>s1\<close> and \<open>s2\<close> (interpreters 2 and 3; the main interpreter is 1),
  sets \<open>sys.xxx = ['abc']\<close> in the main interpreter and starts four threads: \<open>t1\<close> and \<open>t3\<close>
  on \<open>s1\<close>, \<open>t2\<close> on \<open>s2\<close>, \<open>t4\<close> on the main interpreter.  Whatever the schedule (which thread
  moves when, and where the interpreter hands the lock over inside a script), main never
  fails; if it returns, it returns 0, and what has been printed is the line of main,
  written to \<open>sys.stdout\<close> of the main interpreter, followed by one line of each of the four
  threads, in the order in which they executed their \<open>print\<close>: the three threads on \<open>s1\<close>
  and \<open>s2\<close> found no attribute \<open>xxx\<close> and wrote to the stream of their own interpreter, and
  \<open>t4\<close> read \<open>['abc']\<close>.  At every moment after the construction of \<open>s2\<close> the module \<open>sys\<close>
  of \<open>s1\<close> and that of \<open>s2\<close> have no attribute: what main writes into its own is never
  visible in them.  No execution gets stuck: however far a schedule has run, it can be
  continued so that main returns; for one, main returns under the schedule \<open>interleaved\<close>.
\<close>

theorem main_subinterpreters_do_not_see_xxx:
  "(main True True sched not_started = Inl Blocked \<or>
    (\<exists>s' order. main True True sched not_started = Inr (0, s') \<and>
       distinct order \<and> set order = {1, 2, 3, 4} \<and>
       stdout s' =
         (1, ''main: setting sys.xxx=['abc']'') #
         map (\<lambda>t. [(2, ''t1(s1): sys.xxx=attribute not set''),
                    (3, ''t2(s2): sys.xxx=attribute not set''),
                    (2, ''t3(s1): sys.xxx=attribute not set''),
                    (1, ''t4(main): sys.xxx=['abc']'')] ! (t - 1)) order)) \<and>
   (\<forall>c. run_sched sched (process 0 (Some 2) (Some 3) built) = Inr c \<longrightarrow>
      sys_attrs (rt c) 2 = [] \<and> sys_attrs (rt c) 3 = [] \<and>
      (\<exists>more s'. main True True (sched @ more) not_started = Inr (0, s'))) \<and>
   (\<exists>s'. main True True interleaved not_started = Inr (0, s'))"
proof (intro conjI)
  show "\<exists>s'. main True True interleaved not_started = Inr (0, s')"
    by (rule sched_returns)
next
  show "\<forall>c. run_sched sched (process 0 (Some 2) (Some 3) built) = Inr c \<longrightarrow>
      sys_attrs (rt c) 2 = [] \<and> sys_attrs (rt c) 3 = [] \<and>
      (\<exists>more s'. main True True (sched @ more) not_started = Inr (0, s'))"
  proof (intro allI impI)
    fix c assume c: "run_sched sched (process 0 (Some 2) (Some 3) built) = Inr c"
    with reachable_run_sched [OF process_reachable, of sched] have "reachable c" by auto
    from reachable_namespaces [OF this] main_can_return [OF c]
    show "sys_attrs (rt c) 2 = [] \<and> sys_attrs (rt c) 3 = [] \<and>
      (\<exists>more s'. main True True (sched @ more) not_started = Inr (0, s'))"
      by blast
  qed
next
  let ?goal = "main True True sched not_started = Inl Blocked \<or>
    (\<exists>s' order. main True True sched not_started = Inr (0, s') \<and>
       distinct order \<and> set order = {1, 2, 3, 4} \<and>
       stdout s' =
         (1, ''main: setting sys.xxx=['abc']'') #
         map (\<lambda>t. [(2, ''t1(s1): sys.xxx=attribute not set''),
                    (3, ''t2(s2): sys.xxx=attribute not set''),
                    (2, ''t3(s1): sys.xxx=attribute not set''),
                    (1, ''t4(main): sys.xxx=['abc']'')] ! (t - 1)) order)"
  let ?c0 = "process 0 (Some 2) (Some 3) built"
  let ?plan = "main_threads (Some 2) (Some 3)"
  let ?E = "[(2, ''t1(s1): sys.xxx=attribute not set''),
             (3, ''t2(s2): sys.xxx=attribute not set''),
             (2, ''t3(s1): sys.xxx=attribute not set''),
             (1 :: nat, ''t4(main): sys.xxx=['abc']'')]"
  from reachable_run_sched [OF process_reachable, of sched]
  show ?goal
  proof
    assume "run_sched sched ?c0 = Inl Blocked"
    then have "main True True sched not_started = Inl Blocked"
      by (simp only: main_shape and_then_Inl)
    then show ?goal ..
  next
    assume "\<exists>c. run_sched sched ?c0 = Inr c \<and> reachable c"
    then obtain c where c: "run_sched sched ?c0 = Inr c" "reachable c"
      by blast
    show ?goal
    proof (cases "pc c 0 = Finished")
      case False
      then have "main True True sched not_started = Inl Blocked"
        by (simp only: main_shape c(1) and_then_Inr if_True simp_thms)
      then show ?goal ..
    next
      case True
      with c(2) obtain r0 where r0: "after_script r0" "inv 0 ?plan r0 c"
        by (auto simp add: reachable_def inv_solo_def)
      from inv_finished [OF r0(2) True] obtain order where
        fin: "initialized (rt c)" "gil (rt c) = Some 0" "current (rt c) 0 = current r0 0"
          "tstates (rt c) = tstates r0" "interps (rt c) = interps r0" and
        order: "distinct order" "set order = fst ` set ?plan" and
        out: "stdout (rt c) = stdout r0 @
                map (\<lambda>t. (arg_interp c t,
                           f_prints (arg_tname c t) (sys_attrs r0 (arg_interp c t)))) order"
        by blast
      from r0(1) have a: "current r0 0 = Some 1" "tstates r0 = tstates built"
        "interps r0 = interps built" "stdout r0 = [(1, ''main: setting sys.xxx=['abc']'')]"
        by (simp_all add: after_script_def)
      have cur: "current (rt c) 0 = Some 1" "tstates (rt c) = tstates built"
        "interps (rt c) = interps built"
        using fin(3,4,5) a by simp_all
      from main_unwinds [OF fin(1,2) cur(2,3,1)] obtain sk where
        sk: "and_then (sub_interpreter_dtor 0 (Some 3) (rt c))
               (\<lambda>si. and_then (sub_interpreter_dtor 0 (Some 2) si)
               (\<lambda>sj. and_then (initialize_dtor 0 sj) (\<lambda>sk. Inr (0, sk)))) = Inr (0 :: int, sk)"
          "stdout sk = stdout (rt c)"
        by (elim exE conjE) (rule that)
      from order(2) have members: "set order = {1, 2, 3, 4}"
        by (simp add: main_threads_def insert_commute)
      from r0(2) have thr: "inv_threads 0 ?plan r0 c" and mn: "inv_main 0 ?plan r0 c"
        by (simp_all add: inv_def)
      have there: "pc c t \<noteq> Absent" if "t \<in> {1, 2, 3, 4}" for t
      proof -
        from that have "t \<in> fst ` set ?plan" by (simp add: main_threads_def)
        with mn True have "pc c t = Done" by (auto simp add: inv_main_def)
        then show ?thesis by simp
      qed
      have lines: "map (\<lambda>t. (arg_interp c t,
                           f_prints (arg_tname c t) (sys_attrs r0 (arg_interp c t)))) order
                     = map (\<lambda>t. ?E ! (t - 1)) order"
      proof (rule map_cong [OF refl])
        fix t assume "t \<in> set order"
        with members have t: "t \<in> {1, 2, 3, 4}" by simp
        show "(arg_interp c t, f_prints (arg_tname c t) (sys_attrs r0 (arg_interp c t)))
                = ?E ! (t - 1)"
          by (rule main_thread_prints [OF r0(1) thr there [OF t] t])
      qed
      have res: "main True True sched not_started = Inr (0, sk)"
        by (simp only: main_shape c(1) and_then_Inr True sk(1) if_False simp_thms)
      have "stdout sk = (1, ''main: setting sys.xxx=['abc']'') # map (\<lambda>t. ?E ! (t - 1)) order"
        by (simp only: sk(2) out lines a(4) append_Cons append_Nil)
      with res order(1) members show ?goal by blast
    qed
  qed
qed

lemma script_done:
  "\<exists>c. run_sched (take 9 interleaved) (process 0 (Some 2) (Some 3) built) = Inr c \<and>
      sys_attrs (rt c) 1 = [(''xxx'', PyStrList [''abc''])]"
  by (simp add: interleaved_def process_def built_def step_def main_body_def goes_def
      PyRun_SimpleString_def PyRun_continue_def compile_def main_code_def logged_def
      tstate_at_def)

theorem main_subinterpreters_do_not_see_xxx_witness:
  "(\<exists>s' order. main True True interleaved not_started = Inr (0, s') \<and>
      distinct order \<and> set order = {1, 2, 3, 4} \<and>
      stdout s' =
        (1, ''main: setting sys.xxx=['abc']'') #
        map (\<lambda>t. [(2, ''t1(s1): sys.xxx=attribute not set''),
                   (3, ''t2(s2): sys.xxx=attribute not set''),
                   (2, ''t3(s1): sys.xxx=attribute not set''),
                   (1, ''t4(main): sys.xxx=['abc']'')] ! (t - 1)) order) \<and>
   (\<exists>c. run_sched (take 9 interleaved) (process 0 (Some 2) (Some 3) built) = Inr c \<and>
      sys_attrs (rt c) 1 = [(''xxx'', PyStrList [''abc''])] \<and>
      sys_attrs (rt c) 2 = [] \<and> sys_attrs (rt c) 3 = [] \<and>
      (\<exists>more s'. main True True (take 9 interleaved @ more) not_started = Inr (0, s')))"
proof -
  from sched_returns obtain s0 where
    s0: "main True True interleaved not_started = Inr (0, s0)" ..
  from script_done obtain c where
    c: "run_sched (take 9 interleaved) (process 0 (Some 2) (Some 3) built) = Inr c"
       "sys_attrs (rt c) 1 = [(''xxx'', PyStrList [''abc''])]"
    by blast
  from main_subinterpreters_do_not_see_xxx [of interleaved, THEN conjunct1] s0
  have 1: "\<exists>s' order. main True True interleaved not_started = Inr (0, s') \<and>
      distinct order \<and> set order = {1, 2, 3, 4} \<and>
      stdout s' =
        (1, ''main: setting sys.xxx=['abc']'') #
        map (\<lambda>t. [(2, ''t1(s1): sys.xxx=attribute not set''),
                   (3, ''t2(s2): sys.xxx=attribute not set''),
                   (2, ''t3(s1): sys.xxx=attribute not set''),
                   (1, ''t4(main): sys.xxx=['abc']'')] ! (t - 1)) order"
    by simp
  from main_subinterpreters_do_not_see_xxx [of "take 9 interleaved", THEN conjunct2,
      THEN conjunct1, rule_format, OF c(1)] c
  have 2: "\<exists>c. run_sched (take 9 interleaved) (process 0 (Some 2) (Some 3) built) = Inr c \<and>
      sys_attrs (rt c) 1 = [(''xxx'', PyStrList [''abc''])] \<and>
      sys_attrs (rt c) 2 = [] \<and> sys_attrs (rt c) 3 = [] \<and>
      (\<exists>more s'. main True True (take 9 interleaved @ more) not_started = Inr (0, s'))"
    by blast
  from 1 2 show ?thesis by (rule conjI)
qed

section \<open>The lock\<close>

lemma step_others:
  assumes "step t sw c = Inr c'" "u \<noteq> t" "holding (pc c u)"
  shows "pc c' u = pc c u"
  using assms
  by (auto simp add: step_def f_def main_body_def goes_def and_then_def
      split: point.splits list.splits sum.splits if_splits prod.splits option.splits)

lemma step_acquires:
  assumes "step t sw c = Inr c'" "\<not> holding (pc c t)" "holding (pc c' t)"
  shows "pc c t = W_restore \<or> pc c t = Join [] \<or>
         (\<exists>p ops stk. pc c t = W_script (Waiting p ops stk) \<or>
                       pc c t = M_script (Waiting p ops stk))"
  using assms
  by (auto simp add: step_def f_def main_body_def goes_def and_then_def PyRun_continue_def
      split: point.splits list.splits sum.splits if_splits prod.splits option.splits
        script.splits)

lemma reachable_lock:
  assumes "reachable c"
  shows "holding (pc c t) = (gil (rt c) = Some t)"
proof -
  from assms have "inv_solo c \<or> (\<exists>r0. after_script r0 \<and> inv 0 (main_threads (Some 2) (Some 3)) r0 c)"
    by (simp add: reachable_def)
  then show ?thesis
  proof
    assume s: "inv_solo c"
    show ?thesis
    proof (cases "t = 0")
      case True
      with s show ?thesis by (auto simp add: inv_solo_def)
    next
      case False
      with s have "pc c t = Absent" "gil (rt c) = Some 0 \<or> gil (rt c) = None"
        by (auto simp add: inv_solo_def)
      with False show ?thesis by auto
    qed
  next
    assume "\<exists>r0. after_script r0 \<and> inv 0 (main_threads (Some 2) (Some 3)) r0 c"
    then have "inv_lock c" by (auto simp add: inv_def)
    then show ?thesis by (simp add: inv_lock_def)
  qed
qed

text \<open>
  The claim C8 says that a thread acquires the lock only in \<open>thread_state\<close>'s constructor
  or in \<open>enable_threads_scope\<close>'s destructor.  It fails: under the schedule \<open>interleaved\<close>,
  thread 2 hands the lock over in the middle of its script, and later takes it back by an
  action that is neither of the two and is no call of main.cpp at all.
\<close>

theorem lock_taken_back_inside_script_counterexample:
  "\<exists>c c'. run_sched (take 21 interleaved) (process 0 (Some 2) (Some 3) built) = Inr c \<and>
     step 2 False c = Inr c' \<and> gil (rt c) = None \<and> gil (rt c') = Some 2 \<and>
     pc c 2 \<noteq> W_restore \<and> pc c 2 \<noteq> Join [] \<and> calls (rt c') = calls (rt c)"
  by (simp add: interleaved_def process_def built_def main_threads_def step_def f_def
      main_body_def goes_def eval_arg_def sub_interpreter_interp_def
      sub_interpreter_current_def thread_state_current_def deref_interp_def
      PyThreadState_Get_def enable_threads_scope_ctor_def PyEval_SaveThread_def
      PyEval_RestoreThread_def PyThreadState_New_def swap_tstate_scope_ctor_def
      PyThreadState_Swap_def PyRun_SimpleString_def PyRun_continue_def f_code_def
      main_names_plain compile_def main_code_def logged_def tstate_at_def fresh_ptr_def
      Let_def)

text \<open>
  Claim C8, amended.  In every configuration \<open>c\<close> that main and its threads reach, whatever
  the schedule: at most one thread stands at a point where it holds the lock (in
  particular inside \<open>PyRun_SimpleString\<close> with its script \<open>Running\<close>), and it is the thread
  the runtime records as the holder; no action of any thread violates the precondition of
  an interface call or of an instruction of a script, so Python code is executed by the
  holder only; an action that takes a thread from not holding the lock to holding it finds
  the lock free and is the \<open>PyEval_RestoreThread\<close> of \<open>thread_state\<close>'s constructor, that of
  \<open>enable_threads_scope\<close>'s destructor, or the taking back of the lock inside
  \<open>PyRun_SimpleString\<close> after the interpreter has handed it over; and while one thread
  holds the lock, any other thread that asks for it cannot move.
\<close>

theorem lock_held_by_one_thread:
  assumes "run_sched sched (process 0 (Some 2) (Some 3) built) = Inr c"
  shows "(\<forall>t u. holding (pc c t) \<and> holding (pc c u) \<longrightarrow> t = u) \<and>
         (\<forall>t. holding (pc c t) = (gil (rt c) = Some t)) \<and>
         (\<forall>t sw. step t sw c \<noteq> Inl Fatal \<and> step t sw c \<noteq> Inl Unmodelled) \<and>
         (\<forall>t sw c'. step t sw c = Inr c' \<and> \<not> holding (pc c t) \<and> holding (pc c' t) \<longrightarrow>
            gil (rt c) = None \<and>
            (pc c t = W_restore \<or> pc c t = Join [] \<or>
             (\<exists>p ops stk. pc c t = W_script (Waiting p ops stk) \<or>
                           pc c t = M_script (Waiting p ops stk)))) \<and>
         (\<forall>t u sw. holding (pc c u) \<and> u \<noteq> t \<and>
            (pc c t = W_restore \<or> (\<exists>p ops stk. pc c t = W_script (Waiting p ops stk))) \<longrightarrow>
            step t sw c = Inl Blocked)"
proof -
  from reachable_run_sched [OF process_reachable, of sched] assms
  have r: "reachable c" by auto
  note lock = reachable_lock [OF r]
  have a: "t = u" if "holding (pc c t)" "holding (pc c u)" for t u
    using that lock [of t] lock [of u] by simp
  have n: "step t sw c \<noteq> Inl Fatal \<and> step t sw c \<noteq> Inl Unmodelled" for t sw
    using reachable_step [OF r, of t sw] by auto
  have moved: "gil (rt c') = Some t \<and> (\<forall>u. u \<noteq> t \<and> holding (pc c u) \<longrightarrow> gil (rt c') = Some u)"
    if "step t sw c = Inr c'" "holding (pc c' t)" for t sw c'
  proof -
    from reachable_step [OF r, of t sw] that(1) have r': "reachable c'" by auto
    from reachable_lock [OF r', of t] that(2) have "gil (rt c') = Some t" by simp
    moreover have "gil (rt c') = Some u" if u: "u \<noteq> t" "holding (pc c u)" for u
    proof -
      from step_others [OF \<open>step t sw c = Inr c'\<close> u] u(2) have "holding (pc c' u)" by simp
      with reachable_lock [OF r', of u] show ?thesis by simp
    qed
    ultimately show ?thesis by blast
  qed
  have d: "gil (rt c) = None \<and>
            (pc c t = W_restore \<or> pc c t = Join [] \<or>
             (\<exists>p ops stk. pc c t = W_script (Waiting p ops stk) \<or>
                           pc c t = M_script (Waiting p ops stk)))"
    if "step t sw c = Inr c'" "\<not> holding (pc c t)" "holding (pc c' t)" for t sw c'
  proof
    show "pc c t = W_restore \<or> pc c t = Join [] \<or>
             (\<exists>p ops stk. pc c t = W_script (Waiting p ops stk) \<or>
                           pc c t = M_script (Waiting p ops stk))"
      using that by (rule step_acquires)
    show "gil (rt c) = None"
    proof (cases "gil (rt c)")
      case None
      then show ?thesis .
    next
      case (Some u)
      with lock [of u] have hu: "holding (pc c u)" by simp
      with that(2) have "u \<noteq> t" by auto
      with moved [OF that(1,3)] hu have "Some t = Some u" by auto
      with \<open>u \<noteq> t\<close> show ?thesis by simp
    qed
  qed
  have e: "step t sw c = Inl Blocked"
    if "holding (pc c u)" "u \<noteq> t"
      "pc c t = W_restore \<or> (\<exists>p ops stk. pc c t = W_script (Waiting p ops stk))" for t u sw
  proof (rule ccontr)
    assume "step t sw c \<noteq> Inl Blocked"
    with reachable_step [OF r, of t sw] obtain c' where c': "step t sw c = Inr c'"
      by blast
    from that(3) c' have "holding (pc c' t)"
      by (auto simp add: step_def f_def goes_def and_then_def PyRun_continue_def
          split: sum.splits if_splits option.splits)
    from moved [OF c' this] that(1,2) show False by auto
  qed
  from a lock n d e show ?thesis by blast
qed

lemma sched_contended:
  "\<exists>c. run_sched (take 20 interleaved) (process 0 (Some 2) (Some 3) built) = Inr c \<and>
       pc c 0 = Join [1, 2, 3, 4] \<and> pc c 1 = W_restore \<and>
       pc c 2 = W_script (Running 5 [Op_format ''t2(s2): sys.xxx='', Op_print]
                            [PyStr ''attribute not set''])"
  by (simp add: interleaved_def process_def built_def main_threads_def step_def f_def
      main_body_def goes_def eval_arg_def sub_interpreter_interp_def
      sub_interpreter_current_def thread_state_current_def deref_interp_def
      PyThreadState_Get_def enable_threads_scope_ctor_def PyEval_SaveThread_def
      PyEval_RestoreThread_def PyThreadState_New_def swap_tstate_scope_ctor_def
      PyThreadState_Swap_def PyRun_SimpleString_def PyRun_continue_def f_code_def
      main_names_plain compile_def main_code_def logged_def tstate_at_def fresh_ptr_def
      Let_def)

lemma sched_handed_over:
  "\<exists>c. run_sched (take 24 interleaved) (process 0 (Some 2) (Some 3) built) = Inr c \<and>
       pc c 3 = W_run \<and>
       pc c 2 = W_script (Waiting 5 [Op_format ''t2(s2): sys.xxx='', Op_print]
                            [PyStr ''attribute not set''])"
  by (simp add: interleaved_def process_def built_def main_threads_def step_def f_def
      main_body_def goes_def eval_arg_def sub_interpreter_interp_def
      sub_interpreter_current_def thread_state_current_def deref_interp_def
      PyThreadState_Get_def enable_threads_scope_ctor_def PyEval_SaveThread_def
      PyEval_RestoreThread_def PyThreadState_New_def swap_tstate_scope_ctor_def
      PyThreadState_Swap_def PyRun_SimpleString_def PyRun_continue_def f_code_def
      main_names_plain compile_def main_code_def logged_def tstate_at_def fresh_ptr_def
      Let_def)

theorem lock_held_by_one_thread_witness:
  "(\<exists>c. run_sched (take 20 interleaved) (process 0 (Some 2) (Some 3) built) = Inr c \<and>
      gil (rt c) = Some 2 \<and> \<not> holding (pc c 0) \<and> \<not> holding (pc c 1) \<and>
      step 1 False c = Inl Blocked \<and> step 2 True c \<noteq> Inl Fatal) \<and>
   (\<exists>c. run_sched (take 24 interleaved) (process 0 (Some 2) (Some 3) built) = Inr c \<and>
      gil (rt c) = Some 3 \<and> \<not> holding (pc c 2) \<and> step 2 False c = Inl Blocked)"
proof -
  from sched_contended obtain c where
    c: "run_sched (take 20 interleaved) (process 0 (Some 2) (Some 3) built) = Inr c" and
    at: "pc c 0 = Join [1, 2, 3, 4]" "pc c 1 = W_restore"
      "pc c 2 = W_script (Running 5 [Op_format ''t2(s2): sys.xxx='', Op_print]
                            [PyStr ''attribute not set''])"
    by blast
  from lock_held_by_one_thread [OF c] have
    l: "\<forall>t. holding (pc c t) = (gil (rt c) = Some t)" and
    n: "\<forall>t sw. step t sw c \<noteq> Inl Fatal \<and> step t sw c \<noteq> Inl Unmodelled" and
    b: "\<forall>t u sw. holding (pc c u) \<and> u \<noteq> t \<and>
            (pc c t = W_restore \<or> (\<exists>p ops stk. pc c t = W_script (Waiting p ops stk))) \<longrightarrow>
            step t sw c = Inl Blocked"
    by blast+
  from l [rule_format, of 2] at(3) have g: "gil (rt c) = Some 2" by simp
  from b [rule_format, of 2 1 False] at have b1: "step 1 False c = Inl Blocked" by simp
  from n have n2: "step 2 True c \<noteq> Inl Fatal" by blast
  from at have nh: "\<not> holding (pc c 0)" "\<not> holding (pc c 1)" by simp_all
  from c g nh b1 n2 have 1: "\<exists>c. run_sched (take 20 interleaved)
        (process 0 (Some 2) (Some 3) built) = Inr c \<and>
      gil (rt c) = Some 2 \<and> \<not> holding (pc c 0) \<and> \<not> holding (pc c 1) \<and>
      step 1 False c = Inl Blocked \<and> step 2 True c \<noteq> Inl Fatal"
    by blast
  from sched_handed_over obtain d where
    d: "run_sched (take 24 interleaved) (process 0 (Some 2) (Some 3) built) = Inr d" and
    dat: "pc d 3 = W_run"
      "pc d 2 = W_script (Waiting 5 [Op_format ''t2(s2): sys.xxx='', Op_print]
                            [PyStr ''attribute not set''])"
    by blast
  from lock_held_by_one_thread [OF d] have
    dl: "\<forall>t. holding (pc d t) = (gil (rt d) = Some t)" and
    db: "\<forall>t u sw. holding (pc d u) \<and> u \<noteq> t \<and>
            (pc d t = W_restore \<or> (\<exists>p ops stk. pc d t = W_script (Waiting p ops stk))) \<longrightarrow>
            step t sw d = Inl Blocked"
    by blast+
  from dl [rule_format, of 3] dat(1) have dg: "gil (rt d) = Some 3" by simp
  from db [rule_format, of 3 2 False] dat have d2: "step 2 False d = Inl Blocked" by simp
  from dat(2) have dn: "\<not> holding (pc d 2)" by simp
  from d dg dn d2 have 2: "\<exists>c. run_sched (take 24 interleaved)
        (process 0 (Some 2) (Some 3) built) = Inr c \<and>
      gil (rt c) = Some 3 \<and> \<not> holding (pc c 2) \<and> step 2 False c = Inl Blocked"
    by blast
  from 1 2 show ?thesis by (rule conjI)
qed

end
